theory Spec2Isabelle
  imports Main "HOL-Library.Word" "HOL-Library.Sublist" "HOL-Library.Char_ord"
    "HOL-Library.List_Lexorder" "HOL-Library.AList"
begin

unbundle bit_operations_syntax

section \<open>Strings of the Go standard library, as far as \<^verbatim>\<open>main.go\<close> uses them\<close>

text \<open>
  A Go string is a sequence of bytes; \<^typ>\<open>string\<close> is a list of 8-bit characters.

  \<^verbatim>\<open>strings.Split(s, sep)\<close> for a separator of one byte: the pieces of \<open>s\<close> between the
  occurrences of the separator. There is always at least one piece, and a string with
  \<open>n\<close> separators has \<open>n + 1\<close> pieces (some of them may be empty).
\<close>

fun strings_Split :: "string \<Rightarrow> char \<Rightarrow> string list" where
  "strings_Split [] sep = [[]]"
| "strings_Split (x # xs) sep =
     (if x = sep then [] # strings_Split xs sep
      else (case strings_Split xs sep of
              [] \<Rightarrow> [[x]]
            | piece # pieces \<Rightarrow> (x # piece) # pieces))"

text \<open>\<^verbatim>\<open>strings.Join(elems, sep)\<close>: the elements, with \<open>sep\<close> between neighbours.\<close>

fun strings_Join :: "string list \<Rightarrow> string \<Rightarrow> string" where
  "strings_Join [] sep = []"
| "strings_Join [e] sep = e"
| "strings_Join (e # e' # es) sep = e @ sep @ strings_Join (e' # es) sep"

section \<open>The version resolver\<close>

text \<open>
  \<^verbatim>\<open>
  func parseBranchesFlag(branches []string) map[string]string {
      out := make(map[string]string)
      for _, b := range branches {
          splitStr := strings.Split(b, "=")
          if len(splitStr) == 1 {
              out[b] = b
              continue
          }
          out[splitStr[0]] = strings.Join(splitStr[1:], "")
      }
      return out
  }
  \<close>
  The Go map is a partial function from version names to branch names; an assignment
  \<^verbatim>\<open>out[k] = v\<close> is a map update, so a later token with the same name wins.
  \<^verbatim>\<open>splitStr[0]\<close> is in range because \<^verbatim>\<open>strings.Split\<close> never returns an empty slice
  (\<open>strings_Split_not_Nil\<close> below).
\<close>

definition parseBranchesFlag_body :: "(string \<rightharpoonup> string) \<Rightarrow> string \<Rightarrow> (string \<rightharpoonup> string)" where
  "parseBranchesFlag_body out b =
     (let splitStr = strings_Split b (CHR ''='') in
      if length splitStr = 1 then out(b \<mapsto> b)
      else out(hd splitStr \<mapsto> strings_Join (tl splitStr) []))"

definition parseBranchesFlag :: "string list \<Rightarrow> (string \<rightharpoonup> string)" where
  "parseBranchesFlag tokens = foldl parseBranchesFlag_body Map.empty tokens"

text \<open>
  The part of \<^verbatim>\<open>run\<close> that resolves the version map:
  \<^verbatim>\<open>
  versionMap := parseBranchesFlag(branches)
  if latestBranch != "" {
      versionMap["latest"] = latestBranch
  }
  \<close>
\<close>

definition versionMap :: "string list \<Rightarrow> string \<Rightarrow> (string \<rightharpoonup> string)" where
  "versionMap tokens latest =
     (let vm = parseBranchesFlag tokens in
      if latest \<noteq> [] then vm(''latest'' \<mapsto> latest) else vm)"

section \<open>Paths\<close>

text \<open>
  \<^verbatim>\<open>path.Clean\<close> (and \<^verbatim>\<open>filepath.Clean\<close>, which is the same function on Unix): the
  shortest path that names the same file by purely lexical processing. Empty elements
  and \<open>.\<close> are dropped, an inner \<open>..\<close> removes the element before it, a \<open>..\<close> at the
  start of a rooted path is dropped and at the start of a relative path is kept. The
  empty path cleans to \<open>.\<close>. The elements already kept are held in \<open>out\<close>, the last one
  last.
\<close>

definition clean_step :: "bool \<Rightarrow> string list \<Rightarrow> string \<Rightarrow> string list" where
  "clean_step rooted out e =
     (if e = [] \<or> e = ''.'' then out
      else if e = ''..'' then
        (if out \<noteq> [] \<and> last out \<noteq> ''..'' then butlast out
         else if rooted then out
         else out @ [''..''])
      else out @ [e])"

definition path_Clean :: "string \<Rightarrow> string" where
  "path_Clean p =
     (if p = [] then ''.''
      else
        let rooted = (hd p = CHR ''/'');
            out = foldl (clean_step rooted) [] (strings_Split p (CHR ''/''))
        in if rooted then CHR ''/'' # strings_Join out ''/''
           else if out = [] then ''.''
           else strings_Join out ''/'')"

text \<open>
  \<^verbatim>\<open>path.Join\<close>: leading empty elements are skipped, the rest is joined with slashes and
  cleaned; if every element is empty the result is the empty string.
  \<^verbatim>\<open>filepath.Join\<close> is the same function on Unix.
\<close>

fun path_Join :: "string list \<Rightarrow> string" where
  "path_Join [] = []"
| "path_Join (e # es) =
     (if e = [] then path_Join es else path_Clean (strings_Join (e # es) ''/''))"

declare path_Join.simps [simp del]

definition filepath_Join :: "string list \<Rightarrow> string" where
  "filepath_Join elem = path_Join elem"

text \<open>
  The name of a directory entry: not empty, not \<open>.\<close> or \<open>..\<close>, and without a slash.
\<close>

definition valid_name :: "string \<Rightarrow> bool" where
  "valid_name n \<longleftrightarrow> n \<noteq> [] \<and> n \<noteq> ''.'' \<and> n \<noteq> ''..'' \<and> CHR ''/'' \<notin> set n"

text \<open>
  The file system names a file by the list of the directory entries on the way from the
  root. A path string is resolved against the working directory: a rooted path starts
  from the root, any other from the working directory; \<open>.\<close> and empty elements stay in
  place and \<open>..\<close> goes to the parent (the root is its own parent). There are no symbolic
  links in this model and resolution is lexical: \<open>..\<close> goes to the parent whether or not
  the element before it names a directory. On a path that \<^verbatim>\<open>path.Clean\<close> returned this is
  what the operating system does, since there \<open>..\<close> stands only at the start of a
  relative path and so is applied to the working directory. Every path that the program
  hands to the file system is one that \<^verbatim>\<open>path.Join\<close> or \<^verbatim>\<open>filepath.Join\<close> has cleaned,
  but for the output directory of the command line, which \<^verbatim>\<open>run\<close> passes to
  \<^verbatim>\<open>os.MkdirAll\<close> as it was given.
\<close>

type_synonym path = "string list"

definition resolve_step :: "path \<Rightarrow> string \<Rightarrow> path" where
  "resolve_step at e =
     (if e = [] \<or> e = ''.'' then at
      else if e = ''..'' then butlast at
      else at @ [e])"

definition resolve :: "path \<Rightarrow> string \<Rightarrow> path" where
  "resolve wd p =
     foldl resolve_step (if p \<noteq> [] \<and> hd p = CHR ''/'' then [] else wd)
       (strings_Split p (CHR ''/''))"

text \<open>The last element of a path string, as \<^verbatim>\<open>FileInfo.Name\<close> reports it for \<^verbatim>\<open>os.Stat\<close>.\<close>

definition basename :: "string \<Rightarrow> string" where
  "basename p =
     (case filter (\<lambda>e. e \<noteq> []) (strings_Split p (CHR ''/'')) of
        [] \<Rightarrow> (if p = [] then [] else ''/'')
      | e # es \<Rightarrow> last (e # es))"

section \<open>The file system and the process around it\<close>

text \<open>
  A file is a regular file (its mode and its bytes) or a directory (its mode). The mode
  is the \<^verbatim>\<open>os.FileMode\<close> without the type bits, in the numbers of the system: the
  permission bits (\<open>0777\<close>), sticky (\<open>01000\<close>), set-group-ID (\<open>02000\<close>) and set-user-ID
  (\<open>04000\<close>). Whether a file is a directory is the constructor.

  The modes are kept and copied but not enforced: the process is one that may read,
  write and search every file, whatever its mode says (as a process of the superuser
  may). An operation fails for what is or is not at its path, never for a missing
  permission.
\<close>

type_synonym FileMode = "32 word"

datatype node = File FileMode string | Dir FileMode

fun node_mode :: "node \<Rightarrow> FileMode" where
  "node_mode (File m b) = m"
| "node_mode (Dir m) = m"

fun node_is_dir :: "node \<Rightarrow> bool" where
  "node_is_dir (File m b) = False"
| "node_is_dir (Dir m) = True"

fun is_dir :: "node option \<Rightarrow> bool" where
  "is_dir (Some (Dir m)) = True"
| "is_dir _ = False"

fun is_file :: "node option \<Rightarrow> bool" where
  "is_file (Some (File m b)) = True"
| "is_file _ = False"

text \<open>
  Errors are values. \<^verbatim>\<open>PathError\<close> is the error of a failed file operation and carries
  the path it was given; \<^verbatim>\<open>ExitError\<close> is the error of a command that ended with a
  status other than zero or could not be started.
\<close>

datatype error = PathError string | ExitError

text \<open>
  What the process does to the world outside is recorded in the order it happens: the
  lines it logs (with the key/value pairs of the logger and of the call), the commands
  it runs, and the calls that change the file system.
\<close>

datatype logval = Str string | Strs "string list"

type_synonym logger = "(string \<times> logval) list"

datatype event =
    LogInfo logger string "(string \<times> logval) list"
  | LogError logger error string
  | Exec string "string list"
  | MkdirTemp string
  | MkdirAll string FileMode
  | Create string
  | Write string string
  | Chmod string FileMode
  | RemoveAll string

record world =
  files :: "(path \<times> node) list"
  cwd :: path
  umask :: FileMode
  trace :: "event list"

definition lookup :: "world \<Rightarrow> path \<Rightarrow> node option" where
  "lookup w p = map_of (files w) p"

definition emit :: "event \<Rightarrow> world \<Rightarrow> world" where
  "emit e w = w\<lparr>trace := trace w @ [e]\<rparr>"

definition put :: "path \<Rightarrow> node \<Rightarrow> world \<Rightarrow> world" where
  "put p n w = w\<lparr>files := AList.update p n (files w)\<rparr>"

text \<open>
  A world is well formed when every element of every path is the name of a directory
  entry, the root and the working directory are directories, and every file but the
  root lies in a directory.
\<close>

definition wf_world :: "world \<Rightarrow> bool" where
  "wf_world w \<longleftrightarrow>
     list_all (\<lambda>p. list_all valid_name p \<and> (p = [] \<or> is_dir (lookup w (butlast p))))
       (map fst (files w))
     \<and> list_all valid_name (cwd w)
     \<and> is_dir (lookup w [])
     \<and> is_dir (lookup w (cwd w))"

record FileInfo =
  Name :: string
  Mode :: FileMode
  IsDir :: bool

definition file_info :: "string \<Rightarrow> node \<Rightarrow> FileInfo" where
  "file_info name n = \<lparr>Name = name, Mode = node_mode n, IsDir = node_is_dir n\<rparr>"

text \<open>\<^verbatim>\<open>os.Stat\<close>: the empty path names no file.\<close>

definition os_Stat :: "world \<Rightarrow> string \<Rightarrow> error + FileInfo" where
  "os_Stat w name =
     (if name = [] then Inl (PathError name)
      else case lookup w (resolve (cwd w) name) of
             None \<Rightarrow> Inl (PathError name)
           | Some n \<Rightarrow> Inr (file_info (basename name) n))"

text \<open>
  \<^verbatim>\<open>mkdir(2)\<close>: the new directory must not exist and its parent must be a directory.
  Of the mode that is asked for, the permission bits and the sticky bit count
  (\<open>01777\<close>); the permission bits of the process's umask are cleared in it; the
  set-group-ID bit (\<open>02000\<close>) is not taken from the mode but from the parent directory.
\<close>

definition mkdir_mode :: "world \<Rightarrow> path \<Rightarrow> FileMode \<Rightarrow> FileMode" where
  "mkdir_mode w p perm =
     (perm AND 0x3FF AND NOT (umask w AND 0x1FF))
       OR (case lookup w (butlast p) of None \<Rightarrow> 0 | Some n \<Rightarrow> node_mode n AND 0x400)"

definition mkdir :: "world \<Rightarrow> path \<Rightarrow> FileMode \<Rightarrow> bool \<times> world" where
  "mkdir w p perm =
     (if p \<noteq> [] \<and> lookup w p = None \<and> is_dir (lookup w (butlast p))
      then (True, put p (Dir (mkdir_mode w p perm)) w)
      else (False, w))"

text \<open>
  \<^verbatim>\<open>os.MkdirAll(path, perm)\<close>: nothing to do when the path is a directory, an error when
  it is another file; otherwise the parent is made first (with the same \<open>perm\<close>) and then
  the directory itself, and a failure of that last step is forgiven when the directory
  is there after all.
\<close>

function mkdirAll :: "world \<Rightarrow> path \<Rightarrow> FileMode \<Rightarrow> bool \<times> world" where
  "mkdirAll w p perm =
     (case lookup w p of
        Some (Dir m) \<Rightarrow> (True, w)
      | Some (File m b) \<Rightarrow> (False, w)
      | None \<Rightarrow>
          (if p = [] then (False, w)
           else case mkdirAll w (butlast p) perm of
                  (False, w1) \<Rightarrow> (False, w1)
                | (True, w1) \<Rightarrow>
                    (case mkdir w1 p perm of
                       (True, w2) \<Rightarrow> (True, w2)
                     | (False, w2) \<Rightarrow> (is_dir (lookup w2 p), w2))))"
  by pat_completeness auto
termination
  by (relation "measure (\<lambda>(w, p, perm). length p)") auto

declare mkdirAll.simps [simp del]

definition os_MkdirAll :: "world \<Rightarrow> string \<Rightarrow> FileMode \<Rightarrow> error option \<times> world" where
  "os_MkdirAll w name perm =
     (let w0 = emit (MkdirAll name perm) w in
      if name = [] then (Some (PathError name), w0)
      else case mkdirAll w0 (resolve (cwd w0) name) perm of
             (True, w1) \<Rightarrow> (None, w1)
           | (False, w1) \<Rightarrow> (Some (PathError name), w1))"

text \<open>
  \<^verbatim>\<open>ioutil.ReadDir\<close>: the entries of a directory, sorted by name.
\<close>

definition entry_names :: "world \<Rightarrow> path \<Rightarrow> string list" where
  "entry_names w p =
     sort (remdups (map last (filter (\<lambda>q. q \<noteq> [] \<and> butlast q = p) (map fst (files w)))))"

definition dir_entries :: "world \<Rightarrow> path \<Rightarrow> FileInfo list" where
  "dir_entries w p =
     concat (map (\<lambda>c. case lookup w (p @ [c]) of None \<Rightarrow> [] | Some n \<Rightarrow> [file_info c n])
               (entry_names w p))"

definition ioutil_ReadDir :: "world \<Rightarrow> string \<Rightarrow> error + FileInfo list" where
  "ioutil_ReadDir w name =
     (if name = [] then Inl (PathError name)
      else if is_dir (lookup w (resolve (cwd w) name))
        then Inr (dir_entries w (resolve (cwd w) name))
        else Inl (PathError name))"

text \<open>
  \<^verbatim>\<open>os.Open\<close> opens an existing file or directory for reading; the descriptor is the
  file it resolved to.
\<close>

definition os_Open :: "world \<Rightarrow> string \<Rightarrow> error + path" where
  "os_Open w name =
     (if name = [] then Inl (PathError name)
      else case lookup w (resolve (cwd w) name) of
             None \<Rightarrow> Inl (PathError name)
           | Some n \<Rightarrow> Inr (resolve (cwd w) name))"

text \<open>
  \<^verbatim>\<open>os.Create\<close>: an existing regular file is truncated and keeps its mode, a directory
  is an error, and a new file is made with mode \<open>0666\<close> (before umask) when its parent is
  a directory.
\<close>

definition os_Create :: "world \<Rightarrow> string \<Rightarrow> (error + path) \<times> world" where
  "os_Create w name =
     (let w0 = emit (Create name) w; p = resolve (cwd w0) name in
      if name = [] then (Inl (PathError name), w0)
      else case lookup w0 p of
             Some (File m b) \<Rightarrow> (Inr p, put p (File m []) w0)
           | Some (Dir m) \<Rightarrow> (Inl (PathError name), w0)
           | None \<Rightarrow>
               (if p \<noteq> [] \<and> is_dir (lookup w0 (butlast p))
                then (Inr p, put p (File (0x1B6 AND NOT (umask w0)) []) w0)
                else (Inl (PathError name), w0)))"

text \<open>
  \<^verbatim>\<open>io.Copy(dstfd, srcfd)\<close>: everything that can be read from the source is written to
  the destination. Reading a directory is an error.
\<close>

definition io_Copy :: "world \<Rightarrow> string \<Rightarrow> path \<Rightarrow> path \<Rightarrow> error option \<times> world" where
  "io_Copy w name dstfd srcfd =
     (case lookup w srcfd of
        Some (File m b) \<Rightarrow>
          (case lookup w dstfd of
             Some (File m' b') \<Rightarrow> (None, put dstfd (File m' (b' @ b)) (emit (Write name b) w))
           | _ \<Rightarrow> (Some (PathError name), w))
      | _ \<Rightarrow> (Some (PathError name), w))"

text \<open>\<^verbatim>\<open>os.Chmod\<close> sets the mode of an existing file; the umask plays no part.\<close>

definition os_Chmod :: "world \<Rightarrow> string \<Rightarrow> FileMode \<Rightarrow> error option \<times> world" where
  "os_Chmod w name mode =
     (let w0 = emit (Chmod name mode) w; p = resolve (cwd w0) name in
      if name = [] then (Some (PathError name), w0)
      else case lookup w0 p of
             Some (File m b) \<Rightarrow> (None, put p (File mode b) w0)
           | Some (Dir m) \<Rightarrow> (None, put p (Dir mode) w0)
           | None \<Rightarrow> (Some (PathError name), w0))"

section \<open>Copying\<close>

text \<open>
  \<^verbatim>\<open>
  func copyFile(src, dst string) error {
      if srcfd, err = os.Open(src); err != nil { return err }
      defer srcfd.Close()
      if dstfd, err = os.Create(dst); err != nil { return err }
      defer dstfd.Close()
      if _, err = io.Copy(dstfd, srcfd); err != nil { return err }
      if srcinfo, err = os.Stat(src); err != nil { return err }
      return os.Chmod(dst, srcinfo.Mode())
  }
  \<close>
\<close>

definition copyFile :: "world \<Rightarrow> string \<Rightarrow> string \<Rightarrow> error option \<times> world" where
  "copyFile w src dst =
     (case os_Open w src of
        Inl err \<Rightarrow> (Some err, w)
      | Inr srcfd \<Rightarrow>
          (case os_Create w dst of
             (Inl err, w1) \<Rightarrow> (Some err, w1)
           | (Inr dstfd, w1) \<Rightarrow>
               (case io_Copy w1 dst dstfd srcfd of
                  (Some err, w2) \<Rightarrow> (Some err, w2)
                | (None, w2) \<Rightarrow>
                    (case os_Stat w2 src of
                       Inl err \<Rightarrow> (Some err, w2)
                     | Inr srcinfo \<Rightarrow> os_Chmod w2 dst (Mode srcinfo)))))"

text \<open>
  \<^verbatim>\<open>
  func copyDir(src string, dst string) error {
      if srcinfo, err = os.Stat(src); err != nil { return err }
      if err = os.MkdirAll(dst, srcinfo.Mode()); err != nil { return err }
      if fds, err = ioutil.ReadDir(src); err != nil { return err }
      for _, fd := range fds {
          srcfp := path.Join(src, fd.Name())
          dstfp := path.Join(dst, fd.Name())
          if fd.IsDir() {
              if err = copyDir(srcfp, dstfp); err != nil { return err }
          } else {
              if err = copyFile(srcfp, dstfp); err != nil { return err }
          }
      }
      return nil
  }
  \<close>
  The recursion follows the directories it finds, and nothing in the code bounds it: a
  destination inside the source keeps growing under the copy, until the operating system
  refuses a path that has become too long and the call returns that error. The model
  has no limit on the length of a path. It counts the nesting of the calls down from
  \<open>fuel\<close>; the result \<open>None\<close> says that the calls nested deeper than that, and for a
  destination inside the source it is the result for every \<open>fuel\<close>. Where source and
  destination lie apart, fuel beyond the depth of the source tree is enough for the
  call to return (\<open>copyDir_returns\<close> below). \<open>copy_entry\<close> is the body of the loop, \<open>copyDir_range\<close> the loop over
  the entries, and \<open>rec\<close> the recursive call.
\<close>

definition copy_entry ::
  "(world \<Rightarrow> string \<Rightarrow> string \<Rightarrow> (error option \<times> world) option) \<Rightarrow>
   world \<Rightarrow> string \<Rightarrow> string \<Rightarrow> FileInfo \<Rightarrow> (error option \<times> world) option" where
  "copy_entry rec w src dst fd =
     (let srcfp = path_Join [src, Name fd];
          dstfp = path_Join [dst, Name fd]
      in if IsDir fd then rec w srcfp dstfp
         else Some (copyFile w srcfp dstfp))"

fun copyDir_range ::
  "(world \<Rightarrow> string \<Rightarrow> string \<Rightarrow> (error option \<times> world) option) \<Rightarrow>
   world \<Rightarrow> string \<Rightarrow> string \<Rightarrow> FileInfo list \<Rightarrow> (error option \<times> world) option" where
  "copyDir_range rec w src dst [] = Some (None, w)"
| "copyDir_range rec w src dst (fd # fds) =
     (case copy_entry rec w src dst fd of
        None \<Rightarrow> None
      | Some (Some err, w1) \<Rightarrow> Some (Some err, w1)
      | Some (None, w1) \<Rightarrow> copyDir_range rec w1 src dst fds)"

fun copyDir :: "nat \<Rightarrow> world \<Rightarrow> string \<Rightarrow> string \<Rightarrow> (error option \<times> world) option" where
  "copyDir 0 w src dst = None"
| "copyDir (Suc fuel) w src dst =
     (case os_Stat w src of
        Inl err \<Rightarrow> Some (Some err, w)
      | Inr srcinfo \<Rightarrow>
          (case os_MkdirAll w dst (Mode srcinfo) of
             (Some err, w1) \<Rightarrow> Some (Some err, w1)
           | (None, w1) \<Rightarrow>
               (case ioutil_ReadDir w1 src of
                  Inl err \<Rightarrow> Some (Some err, w1)
                | Inr fds \<Rightarrow> copyDir_range (copyDir fuel) w1 src dst fds)))"

section \<open>The run\<close>

text \<open>
  The flags are global variables of the program, set once before \<^verbatim>\<open>run\<close>; here they
  are a record that is passed along.
\<close>

record config =
  repoURL :: string
  repoContentDir :: string
  outputDir :: string
  latestBranch :: string
  branches :: "string list"
  debug :: bool

text \<open>
  What the program cannot decide is a parameter of the model: what a command does to
  the file system and whether it fails (\<open>exec\<close>), the directory for temporary files
  (\<^verbatim>\<open>os.TempDir()\<close>) and the random part of the name that \<^verbatim>\<open>ioutil.TempDir\<close> settles on,
  the order in which \<^verbatim>\<open>range\<close> visits the keys of a map, whether setting the
  logging flag fails, and which files cannot be removed (\<open>stuck\<close>, of the files of a
  world: for a missing permission, a file system that is busy or read-only, or any
  other reason that the file system gives).
\<close>

record env =
  exec :: "string \<Rightarrow> string list \<Rightarrow> world \<Rightarrow> error option \<times> (path \<times> node) list"
  tempRoot :: string
  random :: string
  rangeOrder :: "string list"
  setLogFlag :: "error option"
  stuck :: "world \<Rightarrow> path \<Rightarrow> bool"

text \<open>
  \<^verbatim>\<open>ioutil.TempDir(dir, prefix)\<close>: a new directory with mode \<open>0700\<close> in \<open>dir\<close> (in the
  directory for temporary files when \<open>dir\<close> is empty), named by the prefix and a random
  part. The library tries another random part when a name is taken; here the
  environment gives the one name that is tried, and a directory that cannot be made
  under that name is an error, which carries the name.
\<close>

definition ioutil_TempDir :: "env \<Rightarrow> world \<Rightarrow> string \<Rightarrow> string \<Rightarrow> (error + string) \<times> world" where
  "ioutil_TempDir e w dir pfx =
     (let dir' = (if dir = [] then tempRoot e else dir);
          name = filepath_Join [dir', pfx @ random e];
          w0 = emit (MkdirTemp name) w
      in case mkdir w0 (resolve (cwd w0) name) 0x1C0 of
           (True, w1) \<Rightarrow> (Inr name, w1)
         | (False, w1) \<Rightarrow> (Inl (PathError name), w1))"

text \<open>
  \<^verbatim>\<open>os.RemoveAll\<close> removes the file and everything below it, as far as it can. A file
  that the environment holds (\<open>stuck\<close>) cannot be removed: it stays, and so do the
  directories on the way to it, and the call returns an error. A path that does not
  exist and the empty path are no error; a path that ends in a dot is one.
\<close>

definition os_RemoveAll :: "env \<Rightarrow> world \<Rightarrow> string \<Rightarrow> error option \<times> world" where
  "os_RemoveAll e w name =
     (let w0 = emit (RemoveAll name) w;
          p = resolve (cwd w0) name;
          held = filter (\<lambda>q. prefix p q \<and> stuck e w q) (map fst (files w))
      in if name = [] then (None, w0)
         else if name = ''.'' \<or> suffix ''/.'' name then (Some (PathError name), w0)
         else (if held = [] then None else Some (PathError name),
               w0\<lparr>files := filter (\<lambda>(q, n). \<not> prefix p q \<or> list_ex (prefix q) held) (files w0)\<rparr>))"

text \<open>
  \<^verbatim>\<open>
  func notEmpty(name, val string) bool {
      if val == "" { log.Info("--"+name+" must be specified"); return false }
      return true
  }
  func validateFlags() bool {
      valid := true
      valid = notEmpty("repo-url", repoURL) && valid
      valid = notEmpty("repo-content-dir", repoContentDir) && valid
      valid = notEmpty("output-dir", outputDir) && valid
      return valid
  }
  \<close>
\<close>

definition notEmpty :: "string \<Rightarrow> string \<Rightarrow> world \<Rightarrow> bool \<times> world" where
  "notEmpty name val w =
     (if val = [] then (False, emit (LogInfo [] (''--'' @ name @ '' must be specified'') []) w)
      else (True, w))"

definition validateFlags :: "config \<Rightarrow> world \<Rightarrow> bool \<times> world" where
  "validateFlags cfg w =
     (let valid = True;
          (ok1, w1) = notEmpty ''repo-url'' (repoURL cfg) w;
          valid = (ok1 \<and> valid);
          (ok2, w2) = notEmpty ''repo-content-dir'' (repoContentDir cfg) w1;
          valid = (ok2 \<and> valid);
          (ok3, w3) = notEmpty ''output-dir'' (outputDir cfg) w2;
          valid = (ok3 \<and> valid)
      in (valid, w3))"

text \<open>
  \<^verbatim>\<open>
  func runCommand(log logr.Logger, name string, args ...string) error {
      log = log.WithValues("cmd", name, "args", args)
      cmd := exec.Command(name, args...)
      if debug { log.Info("Running command"); cmd.Stdout = os.Stdout; cmd.Stderr = os.Stderr }
      if err := cmd.Run(); err != nil { log.Error(err, "Error running command"); return err }
      return nil
  }
  \<close>
  The command works on the file system; it cannot change the working directory or the
  umask of the process that started it.
\<close>

definition runCommand ::
  "config \<Rightarrow> env \<Rightarrow> logger \<Rightarrow> string \<Rightarrow> string list \<Rightarrow> world \<Rightarrow> error option \<times> world" where
  "runCommand cfg e log name args w =
     (let log = log @ [(''cmd'', Str name), (''args'', Strs args)];
          w0 = (if debug cfg then emit (LogInfo log ''Running command'' []) w else w);
          w1 = emit (Exec name args) w0;
          (r, fs) = exec e name args w1;
          w2 = w1\<lparr>files := fs\<rparr>
      in case r of
           Some err \<Rightarrow> (Some err, emit (LogError log err ''Error running command'') w2)
         | None \<Rightarrow> (None, w2))"

text \<open>
  \<^verbatim>\<open>
  func fetchRepository(log logr.Logger, tmpdir, repoURL, version, branchName string) (string, error) {
      log.Info("Fetching repository at revision")
      cloneDir := filepath.Join(tmpdir, "repo", version)
      if err := runCommand(log, "git", "clone", "-b", branchName, repoURL, cloneDir); err != nil {
          return "", err
      }
      return cloneDir, nil
  }
  \<close>
\<close>

definition fetchRepository ::
  "config \<Rightarrow> env \<Rightarrow> logger \<Rightarrow> string \<Rightarrow> string \<Rightarrow> string \<Rightarrow> string \<Rightarrow> world \<Rightarrow>
   (error + string) \<times> world" where
  "fetchRepository cfg e log tmpdir url version branchName w =
     (let w0 = emit (LogInfo log ''Fetching repository at revision'' []) w;
          cloneDir = filepath_Join [tmpdir, ''repo'', version]
      in case runCommand cfg e log ''git'' [''clone'', ''-b'', branchName, url, cloneDir] w0 of
           (Some err, w1) \<Rightarrow> (Inl err, w1)
         | (None, w1) \<Rightarrow> (Inr cloneDir, w1))"

text \<open>
  \<^verbatim>\<open>
  func cleanup(log logr.Logger, dir string) {
      log = log.WithValues("directory", dir)
      if debug { log.Info("Skipping cleaning up temporary directory"); return }
      if err := os.RemoveAll(dir); err != nil {
          log.Error(err, "Failed to cleanup temporary directory"); return
      }
      log.Info("Cleaned up temporary directory")
  }
  \<close>
\<close>

definition cleanup :: "config \<Rightarrow> env \<Rightarrow> logger \<Rightarrow> string \<Rightarrow> world \<Rightarrow> world" where
  "cleanup cfg e log dir w =
     (let log = log @ [(''directory'', Str dir)] in
      if debug cfg then emit (LogInfo log ''Skipping cleaning up temporary directory'' []) w
      else case os_RemoveAll e w dir of
             (Some err, w1) \<Rightarrow> emit (LogError log err ''Failed to cleanup temporary directory'') w1
           | (None, w1) \<Rightarrow> emit (LogInfo log ''Cleaned up temporary directory'' []) w1)"

text \<open>
  The body of the loop of \<^verbatim>\<open>run\<close>, for one version and its branch:
  \<^verbatim>\<open>
  log := log.WithValues("version", vers, "branch", branch)
  log.Info("Adding version to list to generate")
  loc, err := fetchRepository(log, tmpdir, repoURL, vers, branch)
  if err != nil { log.Error(err, "Failed to fetch repository"); return err }
  log.Info("Fetched repository", "path", loc)
  log.Info("Copying content to output directory")
  src := filepath.Join(loc, repoContentDir)
  dst := filepath.Join(outputDir, vers)
  if err := copyDir(src, dst); err != nil {
      log.Error(err, "Failed to copy content from source repository to output directory")
      return err
  }
  \<close>
\<close>

definition run_version ::
  "config \<Rightarrow> env \<Rightarrow> nat \<Rightarrow> string \<Rightarrow> string \<times> string \<Rightarrow> world \<Rightarrow> (error option \<times> world) option" where
  "run_version cfg e fuel tmpdir vb w =
     (let vers = fst vb; branch = snd vb;
          log = [(''version'', Str vers), (''branch'', Str branch)];
          w0 = emit (LogInfo log ''Adding version to list to generate'' []) w
      in case fetchRepository cfg e log tmpdir (repoURL cfg) vers branch w0 of
           (Inl err, w1) \<Rightarrow> Some (Some err, emit (LogError log err ''Failed to fetch repository'') w1)
         | (Inr loc, w1) \<Rightarrow>
             (let w2 = emit (LogInfo log ''Fetched repository'' [(''path'', Str loc)]) w1;
                  w3 = emit (LogInfo log ''Copying content to output directory'' []) w2;
                  src = filepath_Join [loc, repoContentDir cfg];
                  dst = filepath_Join [outputDir cfg, vers]
              in case copyDir fuel w3 src dst of
                   None \<Rightarrow> None
                 | Some (Some err, w4) \<Rightarrow>
                     Some (Some err,
                       emit (LogError log err
                         ''Failed to copy content from source repository to output directory'') w4)
                 | Some (None, w4) \<Rightarrow> Some (None, w4)))"

fun run_range ::
  "config \<Rightarrow> env \<Rightarrow> nat \<Rightarrow> string \<Rightarrow> (string \<times> string) list \<Rightarrow> world \<Rightarrow>
   (error option \<times> world) option" where
  "run_range cfg e fuel tmpdir [] w = Some (None, w)"
| "run_range cfg e fuel tmpdir (vb # vbs) w =
     (case run_version cfg e fuel tmpdir vb w of
        None \<Rightarrow> None
      | Some (Some err, w1) \<Rightarrow> Some (Some err, w1)
      | Some (None, w1) \<Rightarrow> run_range cfg e fuel tmpdir vbs w1)"

text \<open>
  The pairs that \<^verbatim>\<open>for vers, branch := range versionMap\<close> visits, in the order that the
  environment picks: a name that is no key of the map is not visited. Go visits every
  key once, in an order of its own choice; an order of the environment stands for one of
  Go when it lists every key of the map once, and a theorem that needs that assumes it.
\<close>

definition range_pairs :: "(string \<rightharpoonup> string) \<Rightarrow> string list \<Rightarrow> (string \<times> string) list" where
  "range_pairs vm order =
     concat (map (\<lambda>v. case vm v of None \<Rightarrow> [] | Some b \<Rightarrow> [(v, b)]) order)"

text \<open>
  \<^verbatim>\<open>
  func run() error {
      if latestBranch == "" && len(branches) == 0 { log.Info("Nothing to do!"); return nil }
      tmpdir, err := ioutil.TempDir("", "hugo-multiversion-")
      if err != nil { return err }
      defer cleanup(log, tmpdir)
      if err := os.MkdirAll(outputDir, 0755); err != nil {
          log.Info("Error creating output directory"); return err
      }
      versionMap := parseBranchesFlag(branches)
      if latestBranch != "" { versionMap["latest"] = latestBranch }
      for vers, branch := range versionMap { ... }
      log.Info("Built content directory")
      return nil
  }
  \<close>
  \<open>run_deferred\<close> is what runs between the \<^verbatim>\<open>defer\<close> and the return; \<open>run\<close> calls
  \<open>cleanup\<close> on whatever it returns.
\<close>

definition run_deferred ::
  "config \<Rightarrow> env \<Rightarrow> nat \<Rightarrow> string \<Rightarrow> world \<Rightarrow> (error option \<times> world) option" where
  "run_deferred cfg e fuel tmpdir w =
     (case os_MkdirAll w (outputDir cfg) 0x1ED of
        (Some err, w1) \<Rightarrow> Some (Some err, emit (LogInfo [] ''Error creating output directory'' []) w1)
      | (None, w1) \<Rightarrow>
          (case run_range cfg e fuel tmpdir
                  (range_pairs (versionMap (branches cfg) (latestBranch cfg)) (rangeOrder e)) w1 of
             None \<Rightarrow> None
           | Some (Some err, w2) \<Rightarrow> Some (Some err, w2)
           | Some (None, w2) \<Rightarrow> Some (None, emit (LogInfo [] ''Built content directory'' []) w2)))"

definition run :: "config \<Rightarrow> env \<Rightarrow> nat \<Rightarrow> world \<Rightarrow> (error option \<times> world) option" where
  "run cfg e fuel w =
     (if latestBranch cfg = [] \<and> length (branches cfg) = 0
      then Some (None, emit (LogInfo [] ''Nothing to do!'' []) w)
      else case ioutil_TempDir e w [] ''hugo-multiversion-'' of
             (Inl err, w1) \<Rightarrow> Some (Some err, w1)
           | (Inr tmpdir, w1) \<Rightarrow>
               (case run_deferred cfg e fuel tmpdir w1 of
                  None \<Rightarrow> None
                | Some (r, w2) \<Rightarrow> Some (r, cleanup cfg e [] tmpdir w2)))"

text \<open>
  \<^verbatim>\<open>main\<close>, with the exit status of the process as its result: \<open>2\<close> when the logging
  flag cannot be set, \<open>1\<close> when a flag is missing or \<^verbatim>\<open>run\<close> returns an error, \<open>0\<close> when
  \<^verbatim>\<open>main\<close> returns.
\<close>

definition main :: "config \<Rightarrow> env \<Rightarrow> nat \<Rightarrow> world \<Rightarrow> (nat \<times> world) option" where
  "main cfg e fuel w =
     (if setLogFlag e \<noteq> None then Some (2, w)
      else case validateFlags cfg w of
             (False, w1) \<Rightarrow> Some (1, w1)
           | (True, w1) \<Rightarrow>
               (case run cfg e fuel w1 of
                  None \<Rightarrow> None
                | Some (Some err, w2) \<Rightarrow> Some (1, emit (LogError [] err ''Failed to run'') w2)
                | Some (None, w2) \<Rightarrow> Some (0, w2)))"

section \<open>Observing a copy\<close>

text \<open>
  The order of a depth-first walk in pre-order over the tree at \<open>p\<close>: the directory
  itself, then its entries in the order of \<^verbatim>\<open>ioutil.ReadDir\<close>, each directory among them
  followed by the walk of its own tree before the next entry is listed. \<open>n\<close> bounds the
  depth.
\<close>

fun walk :: "nat \<Rightarrow> world \<Rightarrow> path \<Rightarrow> path list" where
  "walk 0 w p = []"
| "walk (Suc n) w p =
     p # concat (map (\<lambda>fd. if IsDir fd then walk n w (p @ [Name fd]) else [p @ [Name fd]])
                  (dir_entries w p))"

text \<open>
  The files that a sequence of events makes or opens for writing, in the order of the
  events: the directory of each \<^verbatim>\<open>os.MkdirAll\<close> and the file of each \<^verbatim>\<open>os.Create\<close>.
\<close>

fun visits :: "path \<Rightarrow> event list \<Rightarrow> path list" where
  "visits wd [] = []"
| "visits wd (MkdirAll name perm # es) = resolve wd name # visits wd es"
| "visits wd (Create name # es) = resolve wd name # visits wd es"
| "visits wd (e # es) = visits wd es"

text \<open>The commands that a sequence of events runs, in the order of the events.\<close>

fun fetches :: "event list \<Rightarrow> (string \<times> string list) list" where
  "fetches [] = []"
| "fetches (Exec name args # es) = (name, args) # fetches es"
| "fetches (e # es) = fetches es"

text \<open>
  What \<^verbatim>\<open>git clone\<close> has to be told, by its manual, to fetch less than the whole
  repository: the history is cut short only with \<^verbatim>\<open>--depth\<close> or one of the
  \<^verbatim>\<open>--shallow-...\<close> options, and only the history of one branch is fetched with
  \<^verbatim>\<open>--single-branch\<close>, which the options for a shallow clone imply. Without them the
  clone fetches every branch with its full history; \<^verbatim>\<open>-b\<close> only chooses the branch that
  is checked out.
\<close>

definition requests_shallow :: "string list \<Rightarrow> bool" where
  "requests_shallow args \<longleftrightarrow> list_ex (\<lambda>a. prefix ''--depth'' a \<or> prefix ''--shallow-'' a) args"

definition requests_single_branch :: "string list \<Rightarrow> bool" where
  "requests_single_branch args \<longleftrightarrow> ''--single-branch'' \<in> set args \<or> requests_shallow args"

text \<open>
  The command that \<open>run\<close> has \<open>fetchRepository\<close> run for a version and its branch, and
  the logger of the loop for them.
\<close>

definition clone_command :: "config \<Rightarrow> string \<Rightarrow> string \<times> string \<Rightarrow> string \<times> string list" where
  "clone_command cfg tmpdir vb =
     (''git'', [''clone'', ''-b'', snd vb, repoURL cfg, filepath_Join [tmpdir, ''repo'', fst vb]])"

definition version_logger :: "string \<times> string \<Rightarrow> logger" where
  "version_logger vb = [(''version'', Str (fst vb)), (''branch'', Str (snd vb))]"

text \<open>
  The two steps of the loop body of \<^verbatim>\<open>run\<close> for a version and its branch: the call of
  \<open>fetchRepository\<close> from the world \<open>w\<close> in which the loop body starts, and the call of
  \<open>copyDir\<close> for the directory \<open>loc\<close> that the fetch returned, from the world \<open>w\<close> that the
  fetch left.
\<close>

abbreviation fetch_step ::
  "config \<Rightarrow> env \<Rightarrow> string \<Rightarrow> string \<times> string \<Rightarrow> world \<Rightarrow> (error + string) \<times> world" where
  "fetch_step cfg e tmpdir vb w \<equiv>
     fetchRepository cfg e (version_logger vb) tmpdir (repoURL cfg) (fst vb) (snd vb)
       (emit (LogInfo (version_logger vb) ''Adding version to list to generate'' []) w)"

abbreviation copy_step ::
  "config \<Rightarrow> nat \<Rightarrow> string \<times> string \<Rightarrow> string \<Rightarrow> world \<Rightarrow> (error option \<times> world) option" where
  "copy_step cfg fuel vb loc w \<equiv>
     copyDir fuel
       (emit (LogInfo (version_logger vb) ''Copying content to output directory'' [])
          (emit (LogInfo (version_logger vb) ''Fetched repository'' [(''path'', Str loc)]) w))
       (filepath_Join [loc, repoContentDir cfg]) (filepath_Join [outputDir cfg, fst vb])"

text \<open>
  The copies that a sequence of events starts: \<open>run\<close> logs one line, under the logger of
  the version, before each call of \<open>copyDir\<close>.
\<close>

fun copy_logs :: "event list \<Rightarrow> logger list" where
  "copy_logs [] = []"
| "copy_logs (LogInfo log msg kvs # es) =
     (if msg = ''Copying content to output directory'' then log # copy_logs es else copy_logs es)"
| "copy_logs (e # es) = copy_logs es"

text \<open>The paths that a sequence of events removes with \<^verbatim>\<open>os.RemoveAll\<close>.\<close>

fun removals :: "event list \<Rightarrow> string list" where
  "removals [] = []"
| "removals (RemoveAll name # es) = name # removals es"
| "removals (e # es) = removals es"

text \<open>The events of a call, when it returned.\<close>

definition trace_after :: "('a \<times> world) option \<Rightarrow> event list" where
  "trace_after res = (case res of None \<Rightarrow> [] | Some (r, w) \<Rightarrow> trace w)"


text \<open>What a call returned and what it left at a path.\<close>

definition left_at :: "('a \<times> world) option \<Rightarrow> path \<Rightarrow> ('a \<times> node option) option" where
  "left_at res p = map_option (\<lambda>(r, w). (r, lookup w p)) res"

section \<open>Example worlds\<close>

text \<open>
  A fetched repository under \<open>/repo\<close> with a nested directory, and an output directory
  \<open>/out\<close> that has no \<open>v1\<close> yet. The umask is \<open>022\<close>; \<open>/repo\<close> has mode \<open>0777\<close>,
  \<open>/repo/docs\<close> has mode \<open>0775\<close> and \<open>/repo/index.md\<close> has mode \<open>0666\<close>.
\<close>

definition site_world :: world where
  "site_world =
     \<lparr>files =
        [([], Dir 0x1ED),
         ([''repo''], Dir 0x1FF),
         ([''repo'', ''index.md''], File 0x1B6 ''hello''),
         ([''repo'', ''docs''], Dir 0x1FD),
         ([''repo'', ''docs'', ''run.sh''], File 0x1ED ''#!/bin/sh''),
         ([''out''], Dir 0x1ED)],
      cwd = [], umask = 0x12, trace = []\<rparr>"

text \<open>
  An output directory \<open>/out/v1\<close> left by an earlier run: \<open>index.md\<close> is also in the
  repository, \<open>stale.md\<close> is not.
\<close>

definition stale_world :: world where
  "stale_world =
     \<lparr>files =
        [([], Dir 0x1ED),
         ([''repo''], Dir 0x1ED),
         ([''repo'', ''index.md''], File 0x1A4 ''new''),
         ([''out''], Dir 0x1ED),
         ([''out'', ''v1''], Dir 0x1C0),
         ([''out'', ''v1'', ''index.md''], File 0x180 ''old''),
         ([''out'', ''v1'', ''stale.md''], File 0x1A4 ''stale'')],
      cwd = [], umask = 0x12, trace = []\<rparr>"

text \<open>
  An output directory in which \<open>docs\<close> is a regular file, while the repository has a
  directory of that name.
\<close>

definition conflict_world :: world where
  "conflict_world =
     \<lparr>files =
        [([], Dir 0x1ED),
         ([''repo''], Dir 0x1ED),
         ([''repo'', ''docs''], Dir 0x1ED),
         ([''repo'', ''docs'', ''a.md''], File 0x1A4 ''a''),
         ([''out''], Dir 0x1ED),
         ([''out'', ''v1''], Dir 0x1ED),
         ([''out'', ''v1'', ''docs''], File 0x1A4 ''notes'')],
      cwd = [], umask = 0x12, trace = []\<rparr>"

text \<open>
  A configuration like the one of the README, an environment whose commands succeed
  and change nothing, and a world with nothing but \<open>/tmp\<close> and the working directory
  \<open>/home\<close>.
\<close>

definition idle_exec :: "string \<Rightarrow> string list \<Rightarrow> world \<Rightarrow> error option \<times> (path \<times> node) list" where
  "idle_exec name args w = (None, files w)"

definition idle_env :: env where
  "idle_env = \<lparr>exec = idle_exec, tempRoot = ''/tmp'', random = ''042'',
      rangeOrder = [''v0.12'', ''latest''], setLogFlag = None, stuck = (\<lambda>w q. False)\<rparr>"

definition docs_config :: config where
  "docs_config = \<lparr>repoURL = ''https://example.org/docs.git'', repoContentDir = ''docs'',
      outputDir = ''out'', latestBranch = ''master'', branches = [''v0.12=release-0.12''],
      debug = False\<rparr>"

definition empty_world :: world where
  "empty_world = \<lparr>files = [([], Dir 0x1ED), ([''tmp''], Dir 0x3FF), ([''home''], Dir 0x1ED)],
      cwd = [''home''], umask = 0x12, trace = []\<rparr>"

text \<open>
  A stand-in for git: cloning the branch \<open>gone\<close> fails and changes nothing; cloning any
  other branch makes the clone directory with a file \<open>README.md\<close> and a directory
  \<open>docs\<close> that holds \<open>index.md\<close> with the name of the branch in it. With it, an
  environment that visits \<open>v0.12\<close> before \<open>v0.11\<close> before \<open>latest\<close>, a configuration
  whose second branch does not exist, and one whose content directory is a regular
  file of the repository.
\<close>

definition stub_git :: "string \<Rightarrow> string list \<Rightarrow> world \<Rightarrow> error option \<times> (path \<times> node) list" where
  "stub_git name args w =
     (case args of
        [sub, opt, branch, url, dir] \<Rightarrow>
          if branch = ''gone'' then (Some ExitError, files w)
          else
            (let p = resolve (cwd w) dir;
                 (ok, w1) = mkdirAll w p 0x1FF;
                 w2 = put (p @ [''README.md'']) (File (0x1B6 AND NOT (umask w)) (''docs of '' @ branch)) w1;
                 (ok', w3) = mkdirAll w2 (p @ [''docs'']) 0x1FF;
                 w4 = put (p @ [''docs'', ''index.md'']) (File (0x1B6 AND NOT (umask w)) branch) w3
             in (None, files w4))
      | _ \<Rightarrow> (Some ExitError, files w))"

definition stub_env :: env where
  "stub_env = \<lparr>exec = stub_git, tempRoot = ''/tmp'', random = ''042'',
      rangeOrder = [''v0.12'', ''v0.11'', ''latest''], setLogFlag = None,
      stuck = (\<lambda>w q. False)\<rparr>"

text \<open>
  The same environment, but the file \<open>README.md\<close> of the clone of \<open>v0.12\<close> cannot be
  removed.
\<close>

definition busy_env :: env where
  "busy_env = \<lparr>exec = stub_git, tempRoot = ''/tmp'', random = ''042'',
      rangeOrder = [''v0.12'', ''v0.11'', ''latest''], setLogFlag = None,
      stuck = (\<lambda>w q. q = [''tmp'', ''hugo-multiversion-042'', ''repo'', ''v0.12'', ''README.md''])\<rparr>"

definition gone_config :: config where
  "gone_config = docs_config\<lparr>latestBranch := [], branches := [''v0.12=release-0.12'', ''v0.11=gone'']\<rparr>"

definition readme_config :: config where
  "readme_config = docs_config\<lparr>latestBranch := [], repoContentDir := ''README.md''\<rparr>"

section \<open>Notions for the proofs\<close>

text \<open>
  What \<^verbatim>\<open>path.Clean\<close> keeps while it works: no empty element, no \<open>.\<close>, no slash inside an
  element, and no \<open>..\<close> in a rooted path.
\<close>

definition clean_inv :: "bool \<Rightarrow> string list \<Rightarrow> bool" where
  "clean_inv rooted out \<longleftrightarrow>
     (\<forall>e\<in>set out. e \<noteq> [] \<and> e \<noteq> ''.'' \<and> CHR ''/'' \<notin> set e) \<and> (rooted \<longrightarrow> ''..'' \<notin> set out)"

text \<open>
  What an operation on the destination \<open>D\<close> may do to the file system: the working
  directory and the umask stay, a well-formed world stays well formed, a file that
  changes lies at or below \<open>D\<close> or is a directory above \<open>D\<close> that was missing, and a
  file that was there is still there and of the same kind.
\<close>

definition changes :: "world \<Rightarrow> world \<Rightarrow> path \<Rightarrow> bool" where
  "changes w w' D \<longleftrightarrow>
     cwd w' = cwd w \<and> umask w' = umask w \<and> (wf_world w \<longrightarrow> wf_world w')
     \<and> (\<forall>q. lookup w' q \<noteq> lookup w q \<longrightarrow> prefix D q \<or> (prefix q D \<and> lookup w q = None))
     \<and> (\<forall>q n. lookup w q = Some n \<longrightarrow> (\<exists>n'. lookup w' q = Some n' \<and> node_is_dir n' = node_is_dir n))"

text \<open>
  Source and destination of a copy lie apart when neither is at or below the other.
\<close>

definition apart :: "path \<Rightarrow> path \<Rightarrow> bool" where
  "apart S D \<longleftrightarrow> \<not> prefix S D \<and> \<not> prefix D S"

text \<open>
  What a copy carries over from a file of the source: a regular file with its mode and
  its bytes, a directory as a directory (whatever its mode).
\<close>

fun carried :: "node \<Rightarrow> node" where
  "carried (File m b) = File m b"
| "carried (Dir m) = Dir 0"

text \<open>
  A regular file of the destination where the source has a directory, or a directory of
  the destination where the source has a regular file.
\<close>

definition clash :: "node option \<Rightarrow> node option \<Rightarrow> bool" where
  "clash s d \<longleftrightarrow> (is_dir s \<and> is_file d) \<or> (is_file s \<and> is_dir d)"

text \<open>
  When a copy leaves the file of the destination as it is: nothing is at its relative
  path in the source, or a directory is and the destination has a file of any kind
  there already, or a regular file is and the destination has a directory there.
\<close>

definition keeps :: "node option \<Rightarrow> node option \<Rightarrow> bool" where
  "keeps s d \<longleftrightarrow> s = None \<or> (is_dir s \<and> d \<noteq> None) \<or> (is_file s \<and> is_dir d)"

text \<open>The events that a copy records.\<close>

fun copy_event :: "event \<Rightarrow> bool" where
  "copy_event (MkdirAll name perm) = True"
| "copy_event (Create name) = True"
| "copy_event (Write name b) = True"
| "copy_event (Chmod name perm) = True"
| "copy_event e = False"

text \<open>
  What a copy does to the process: the working directory stays and the trace grows by
  events of the copy.
\<close>

definition extends :: "world \<Rightarrow> world \<Rightarrow> bool" where
  "extends w w' \<longleftrightarrow> cwd w' = cwd w \<and> (\<exists>evs. trace w' = trace w @ evs \<and> list_all copy_event evs)"

section \<open>Facts about splitting and joining\<close>

lemma strings_Split_not_Nil: "strings_Split s sep \<noteq> []"
  by (induction s) (auto split: list.splits)

lemma strings_Split_no_sep: "sep \<notin> set s \<Longrightarrow> strings_Split s sep = [s]"
  by (induction s) auto

lemma strings_Split_hd: "hd (strings_Split s sep) = takeWhile (\<lambda>c. c \<noteq> sep) s"
  by (induction s) (auto split: list.splits simp: strings_Split_not_Nil)

lemma strings_Join_empty_sep: "strings_Join es [] = concat es"
  by (induction es "[] :: string" rule: strings_Join.induct) auto

lemma strings_Split_pieces_no_sep: "p \<in> set (strings_Split s sep) \<Longrightarrow> sep \<notin> set p"
  by (induction s arbitrary: p) (auto split: list.splits if_splits)

lemma concat_strings_Split: "concat (strings_Split s sep) = filter (\<lambda>c. c \<noteq> sep) s"
  by (induction s) (auto split: list.splits)

lemma strings_Split_tl:
  "sep \<in> set s \<Longrightarrow>
   tl (strings_Split s sep) = strings_Split (tl (dropWhile (\<lambda>c. c \<noteq> sep) s)) sep"
  by (induction s) (auto split: list.splits simp: strings_Split_not_Nil)

lemma length_strings_Split: "length (strings_Split s sep) = Suc (count_list s sep)"
  by (induction s) (auto split: list.splits simp: strings_Split_not_Nil)

lemma length_strings_Split_one: "length (strings_Split s sep) = Suc 0 \<longleftrightarrow> sep \<notin> set s"
  by (simp add: length_strings_Split count_list_0_iff)

lemma parseBranchesFlag_snoc:
  "parseBranchesFlag (bs @ [b]) = parseBranchesFlag_body (parseBranchesFlag bs) b"
  by (simp add: parseBranchesFlag_def)

lemma parseBranchesFlag_body_sep:
  "CHR ''='' \<in> set b \<Longrightarrow>
   parseBranchesFlag_body out b =
     out(takeWhile (\<lambda>c. c \<noteq> CHR ''='') b \<mapsto>
         filter (\<lambda>c. c \<noteq> CHR ''='') (tl (dropWhile (\<lambda>c. c \<noteq> CHR ''='') b)))"
  by (simp add: parseBranchesFlag_body_def Let_def length_strings_Split_one
      strings_Split_hd strings_Join_empty_sep strings_Split_tl concat_strings_Split)

lemma parseBranchesFlag_body_no_sep:
  "CHR ''='' \<notin> set b \<Longrightarrow> parseBranchesFlag_body out b = out(b \<mapsto> b)"
  by (simp add: parseBranchesFlag_body_def Let_def length_strings_Split_one)

lemma parseBranchesFlag_body_other:
  "v \<noteq> hd (strings_Split b (CHR ''='')) \<Longrightarrow> parseBranchesFlag_body out b v = out v"
proof (cases "CHR ''='' \<in> set b")
  case True
  assume "v \<noteq> hd (strings_Split b (CHR ''=''))"
  with True show ?thesis
    by (simp add: parseBranchesFlag_body_sep strings_Split_hd)
next
  case False
  assume "v \<noteq> hd (strings_Split b (CHR ''=''))"
  with False show ?thesis
    by (simp add: parseBranchesFlag_body_no_sep strings_Split_no_sep)
qed

lemma parseBranchesFlag_later:
  "\<forall>c\<in>set cs. hd (strings_Split c (CHR ''='')) \<noteq> v \<Longrightarrow>
   parseBranchesFlag (bs @ cs) v = parseBranchesFlag bs v"
proof (induction cs rule: rev_induct)
  case Nil
  show ?case by simp
next
  case (snoc c cs)
  have "parseBranchesFlag (bs @ cs @ [c]) v = parseBranchesFlag_body (parseBranchesFlag (bs @ cs)) c v"
    using parseBranchesFlag_snoc [of "bs @ cs" c] by simp
  also have "\<dots> = parseBranchesFlag (bs @ cs) v"
    using snoc.prems by (intro parseBranchesFlag_body_other) auto
  finally show ?case
    using snoc by simp
qed

lemma parseBranchesFlag_at:
  assumes "\<forall>c\<in>set cs. hd (strings_Split c (CHR ''='')) \<noteq> v"
  shows "parseBranchesFlag (bs @ b # cs) v = parseBranchesFlag_body (parseBranchesFlag bs) b v"
  using parseBranchesFlag_later [OF assms, of "bs @ [b]"] by (simp add: parseBranchesFlag_snoc)

lemma parseBranchesFlag_absent:
  "\<forall>c\<in>set cs. hd (strings_Split c (CHR ''='')) \<noteq> v \<Longrightarrow> parseBranchesFlag cs v = None"
  using parseBranchesFlag_later [of cs v "[]"] by (simp add: parseBranchesFlag_def)

section \<open>Facts about paths\<close>

lemma strings_Split_append:
  "strings_Split (s @ sep # t) sep = strings_Split s sep @ strings_Split t sep"
  by (induction s) (auto split: list.splits simp: strings_Split_not_Nil)

lemma strings_Split_Join:
  "es \<noteq> [] \<Longrightarrow> \<forall>e\<in>set es. sep \<notin> set e \<Longrightarrow> strings_Split (strings_Join es [sep]) sep = es"
proof (induction es "[sep]" rule: strings_Join.induct)
  case 1
  then show ?case by simp
next
  case (2 e)
  then show ?case by (simp add: strings_Split_no_sep)
next
  case (3 e e' es)
  then show ?case by (simp add: strings_Split_append strings_Split_no_sep)
qed

lemma clean_inv_Nil: "clean_inv rooted []"
  by (simp add: clean_inv_def)

lemma clean_inv_step:
  "clean_inv rooted out \<Longrightarrow> CHR ''/'' \<notin> set e \<Longrightarrow> clean_inv rooted (clean_step rooted out e)"
  by (auto simp: clean_inv_def clean_step_def dest: in_set_butlastD)

lemma clean_inv_foldl:
  "clean_inv rooted out \<Longrightarrow> \<forall>e\<in>set es. CHR ''/'' \<notin> set e \<Longrightarrow>
   clean_inv rooted (foldl (clean_step rooted) out es)"
  by (induction es arbitrary: out) (auto simp: clean_inv_step)

lemma resolve_step_pop:
  assumes "out \<noteq> []" "last out \<noteq> ''..''" "clean_inv rooted out"
  shows "foldl resolve_step at (butlast out) = butlast (foldl resolve_step at out)"
proof -
  from assms(1) obtain ini l where out: "out = ini @ [l]"
    by (metis append_butlast_last_id)
  with assms have "l \<noteq> []" "l \<noteq> ''.''" "l \<noteq> ''..''"
    by (auto simp: clean_inv_def)
  then show ?thesis
    by (simp add: out resolve_step_def)
qed

lemma clean_step_resolve:
  assumes "clean_inv rooted out" "rooted \<longrightarrow> at = []"
  shows "foldl resolve_step at (clean_step rooted out e) = resolve_step (foldl resolve_step at out) e"
proof (cases "e = ''..''")
  case False
  then show ?thesis by (simp add: clean_step_def resolve_step_def)
next
  case dd: True
  show ?thesis
  proof (cases "out \<noteq> [] \<and> last out \<noteq> ''..''")
    case True
    then show ?thesis
      using resolve_step_pop [of out rooted at] assms(1)
      by (simp add: clean_step_def resolve_step_def dd)
  next
    case stuck: False
    show ?thesis
    proof (cases rooted)
      case True
      have "out = []"
      proof (rule ccontr)
        assume ne: "out \<noteq> []"
        then have "last out \<in> set out" by simp
        moreover from stuck ne have "last out = ''..''" by simp
        ultimately show False
          using assms(1) True by (simp add: clean_inv_def)
      qed
      with True assms show ?thesis
        by (simp add: clean_step_def resolve_step_def dd)
    next
      case False
      with stuck show ?thesis
        by (auto simp: clean_step_def resolve_step_def dd)
    qed
  qed
qed

lemma foldl_clean_resolve:
  assumes "clean_inv rooted out" "rooted \<longrightarrow> at = []" "\<forall>e\<in>set es. CHR ''/'' \<notin> set e"
  shows "foldl resolve_step at (foldl (clean_step rooted) out es)
       = foldl resolve_step (foldl resolve_step at out) es"
  using assms
proof (induction es arbitrary: out)
  case Nil
  then show ?case by simp
next
  case (Cons e es)
  then show ?case
    by (simp add: clean_inv_step clean_step_resolve)
qed

lemma hd_strings_Join:
  "es \<noteq> [] \<Longrightarrow> hd es \<noteq> [] \<Longrightarrow> hd (strings_Join es sep) = hd (hd es)"
  by (induction es sep rule: strings_Join.induct) auto

lemma strings_Join_eq_Nil: "strings_Join es sep = [] \<Longrightarrow> es \<noteq> [] \<Longrightarrow> hd es = []"
  by (induction es sep rule: strings_Join.induct) auto

lemma path_Clean_not_Nil: "path_Clean p \<noteq> []"
proof (cases "p = [] \<or> hd p = CHR ''/''")
  case True
  then show ?thesis by (auto simp: path_Clean_def Let_def)
next
  case False
  define out where "out = foldl (clean_step False) [] (strings_Split p (CHR ''/''))"
  have "clean_inv False out"
    unfolding out_def
    by (intro clean_inv_foldl clean_inv_Nil) (auto dest: strings_Split_pieces_no_sep)
  then have "out \<noteq> [] \<Longrightarrow> hd out \<noteq> []"
    by (simp add: clean_inv_def)
  then have "out \<noteq> [] \<Longrightarrow> strings_Join out ''/'' \<noteq> []"
    by (auto dest: strings_Join_eq_Nil)
  with False show ?thesis
    by (simp add: path_Clean_def Let_def out_def)
qed

lemma resolve_Clean:
  assumes "p \<noteq> []"
  shows "resolve wd (path_Clean p) = resolve wd p"
proof -
  define rooted where "rooted = (hd p = CHR ''/'')"
  define es where "es = strings_Split p (CHR ''/'')"
  define out where "out = foldl (clean_step rooted) [] es"
  have es: "\<forall>e\<in>set es. CHR ''/'' \<notin> set e"
    by (auto simp: es_def dest: strings_Split_pieces_no_sep)
  then have inv: "clean_inv rooted out"
    unfolding out_def by (intro clean_inv_foldl clean_inv_Nil)
  then have out_slash: "\<forall>e\<in>set out. CHR ''/'' \<notin> set e"
    by (simp add: clean_inv_def)
  define at where "at = (if rooted then [] else wd)"
  have main: "foldl resolve_step at out = foldl resolve_step at es"
    using foldl_clean_resolve [OF clean_inv_Nil _ es, of rooted at]
    by (simp add: out_def at_def)
  have rhs: "resolve wd p = foldl resolve_step at es"
    using assms by (simp add: resolve_def at_def rooted_def es_def)
  show ?thesis
  proof (cases rooted)
    case True
    have "resolve wd (path_Clean p) = foldl resolve_step [] (strings_Split (CHR ''/'' # strings_Join out ''/'') (CHR ''/''))"
      using assms True by (simp add: path_Clean_def Let_def rooted_def out_def es_def resolve_def)
    also have "\<dots> = foldl resolve_step [] out"
    proof (cases "out = []")
      case True
      then show ?thesis by (simp add: resolve_step_def)
    next
      case False
      with out_slash have "strings_Split (strings_Join out ''/'') (CHR ''/'') = out"
        by (intro strings_Split_Join) auto
      then show ?thesis by (simp add: resolve_step_def)
    qed
    finally show ?thesis
      using main rhs True by (simp add: at_def)
  next
    case rel: False
    show ?thesis
    proof (cases "out = []")
      case True
      with rel assms have "path_Clean p = ''.''"
        by (simp add: path_Clean_def Let_def rooted_def out_def es_def)
      then have "resolve wd (path_Clean p) = wd"
        by (simp add: resolve_def resolve_step_def)
      with True main rhs rel show ?thesis
        by (simp add: at_def)
    next
      case False
      with rel assms have c: "path_Clean p = strings_Join out ''/''"
        by (simp add: path_Clean_def Let_def rooted_def out_def es_def)
      from False inv have "hd out \<noteq> []" "CHR ''/'' \<notin> set (hd out)"
        by (auto simp: clean_inv_def)
      with False have "hd (strings_Join out ''/'') \<noteq> CHR ''/''"
        by (metis hd_strings_Join hd_in_set)
      moreover have "strings_Split (strings_Join out ''/'') (CHR ''/'') = out"
        using False out_slash by (intro strings_Split_Join) auto
      ultimately have "resolve wd (path_Clean p) = foldl resolve_step wd out"
        by (simp add: c resolve_def)
      with main rhs rel show ?thesis
        by (simp add: at_def)
    qed
  qed
qed


lemma strings_Join_snoc:
  "es \<noteq> [] \<Longrightarrow> strings_Join (es @ [n]) sep = strings_Join es sep @ sep @ n"
  by (induction es sep rule: strings_Join.induct) auto

lemma strings_Join_not_Nil: "e \<noteq> [] \<Longrightarrow> strings_Join (e # es) sep \<noteq> []"
  by (cases es) auto

lemma hd_strings_Join_Cons: "e \<noteq> [] \<Longrightarrow> hd (strings_Join (e # es) sep) = hd e"
  by (cases es) auto

lemma path_Join_Cons: "e \<noteq> [] \<Longrightarrow> path_Join (e # es) = path_Clean (strings_Join (e # es) ''/'')"
  by (simp add: path_Join.simps)

lemma path_Join_not_Nil: "e \<noteq> [] \<Longrightarrow> path_Join (e # es) \<noteq> []"
  by (simp add: path_Join_Cons path_Clean_not_Nil)

lemma resolve_snoc_name:
  assumes "p \<noteq> []" "valid_name n"
  shows "resolve wd (p @ CHR ''/'' # n) = resolve wd p @ [n]"
proof -
  from assms(2) have "strings_Split n (CHR ''/'') = [n]"
    by (simp add: valid_name_def strings_Split_no_sep)
  moreover from assms(1) have "hd (p @ CHR ''/'' # n) = hd p"
    by simp
  ultimately show ?thesis
    using assms by (simp add: resolve_def strings_Split_append resolve_step_def valid_name_def)
qed

lemma resolve_path_Join_snoc:
  assumes "e \<noteq> []" "valid_name n"
  shows "resolve wd (path_Join ((e # es) @ [n])) = resolve wd (path_Join (e # es)) @ [n]"
proof -
  let ?j = "strings_Join (e # es) ''/''"
  have j: "?j \<noteq> []"
    using assms(1) by (rule strings_Join_not_Nil)
  have "path_Join ((e # es) @ [n]) = path_Clean (?j @ CHR ''/'' # n)"
    using assms(1) strings_Join_snoc [of "e # es" n "''/''"] by (simp add: path_Join.simps)
  then have "resolve wd (path_Join ((e # es) @ [n])) = resolve wd (?j @ CHR ''/'' # n)"
    by (simp add: resolve_Clean)
  also have "\<dots> = resolve wd ?j @ [n]"
    using j assms(2) by (rule resolve_snoc_name)
  also have "resolve wd ?j = resolve wd (path_Join (e # es))"
    using assms(1) j by (simp add: resolve_Clean path_Join_Cons)
  finally show ?thesis .
qed

lemma resolve_path_Join2:
  assumes "p \<noteq> []" "valid_name n"
  shows "resolve wd (path_Join [p, n]) = resolve wd p @ [n]"
  using resolve_path_Join_snoc [OF assms, of wd "[]"] assms(1)
  by (simp add: resolve_Clean path_Join_Cons)

lemma resolve_Nil: "resolve wd [] = wd"
  by (simp add: resolve_def resolve_step_def)

lemma resolve_name:
  assumes "valid_name a"
  shows "resolve wd a = wd @ [a]"
proof -
  from assms have "a \<noteq> []" "CHR ''/'' \<notin> set a"
    by (simp_all add: valid_name_def)
  then have "hd a \<noteq> CHR ''/''"
    by (metis hd_in_set)
  with assms show ?thesis
    by (simp add: resolve_def valid_name_def strings_Split_no_sep resolve_step_def)
qed

lemma resolve_filepath_Join3:
  assumes "valid_name a" "valid_name b"
  shows "resolve wd (filepath_Join [t, a, b]) = resolve wd t @ [a, b]"
proof (cases "t = []")
  case True
  from assms have "a \<noteq> []" by (simp add: valid_name_def)
  then have "resolve wd (path_Join [a, b]) = resolve wd a @ [b]"
    using assms(2) by (rule resolve_path_Join2)
  with True assms(1) \<open>a \<noteq> []\<close> show ?thesis
    by (simp add: filepath_Join_def resolve_Nil resolve_name path_Join.simps(2) [of "[]"])
next
  case False
  have "resolve wd (path_Join ([t, a] @ [b])) = resolve wd (path_Join [t, a]) @ [b]"
    using False assms(2) by (rule resolve_path_Join_snoc)
  moreover have "resolve wd (path_Join [t, a]) = resolve wd t @ [a]"
    using False assms(1) by (rule resolve_path_Join2)
  ultimately show ?thesis
    by (simp add: filepath_Join_def)
qed

lemma resolve_step_valid:
  "list_all valid_name at \<Longrightarrow> CHR ''/'' \<notin> set e \<Longrightarrow> list_all valid_name (resolve_step at e)"
  by (auto simp: resolve_step_def valid_name_def list_all_iff dest: in_set_butlastD)

lemma foldl_resolve_step_valid:
  "list_all valid_name at \<Longrightarrow> \<forall>e\<in>set es. CHR ''/'' \<notin> set e \<Longrightarrow>
   list_all valid_name (foldl resolve_step at es)"
  by (induction es arbitrary: at) (auto simp: resolve_step_valid)

lemma resolve_valid: "list_all valid_name wd \<Longrightarrow> list_all valid_name (resolve wd p)"
  unfolding resolve_def
  by (rule foldl_resolve_step_valid) (auto dest: strings_Split_pieces_no_sep)

section \<open>Facts about the file system\<close>

lemma lookup_put [simp]: "lookup (put p n w) q = (if q = p then Some n else lookup w q)"
  by (simp add: lookup_def put_def update_conv')

lemma lookup_emit [simp]: "lookup (emit e w) = lookup w"
  by (rule ext) (simp add: lookup_def emit_def)

lemma cwd_put [simp]: "cwd (put p n w) = cwd w"
  by (simp add: put_def)

lemma cwd_emit [simp]: "cwd (emit e w) = cwd w"
  by (simp add: emit_def)

lemma umask_put [simp]: "umask (put p n w) = umask w"
  by (simp add: put_def)

lemma umask_emit [simp]: "umask (emit e w) = umask w"
  by (simp add: emit_def)

lemma trace_put [simp]: "trace (put p n w) = trace w"
  by (simp add: put_def)

lemma trace_emit [simp]: "trace (emit e w) = trace w @ [e]"
  by (simp add: emit_def)

lemma lookup_Some_iff_key: "lookup w p \<noteq> None \<longleftrightarrow> p \<in> set (map fst (files w))"
  by (simp add: lookup_def map_of_eq_None_iff)

lemma wf_world_iff:
  "wf_world w \<longleftrightarrow>
     (\<forall>p. lookup w p \<noteq> None \<longrightarrow>
        list_all valid_name p \<and> (p \<noteq> [] \<longrightarrow> is_dir (lookup w (butlast p))))
     \<and> list_all valid_name (cwd w) \<and> is_dir (lookup w []) \<and> is_dir (lookup w (cwd w))"
  unfolding wf_world_def list_all_iff lookup_Some_iff_key by auto

lemma is_dir_iff: "is_dir x \<longleftrightarrow> (\<exists>m. x = Some (Dir m))"
  by (cases x rule: is_dir.cases) auto

lemma is_file_iff: "is_file x \<longleftrightarrow> (\<exists>m b. x = Some (File m b))"
  by (cases x rule: is_file.cases) auto

lemma wf_world_parent: "wf_world w \<Longrightarrow> lookup w (p @ [c]) \<noteq> None \<Longrightarrow> is_dir (lookup w p)"
  unfolding wf_world_iff by (metis butlast_snoc snoc_eq_iff_butlast)

lemma wf_world_name: "wf_world w \<Longrightarrow> lookup w (p @ [c]) \<noteq> None \<Longrightarrow> valid_name c"
  unfolding wf_world_iff by (auto simp: list_all_iff)

lemma wf_world_prefix:
  "wf_world w \<Longrightarrow> lookup w (p @ q) \<noteq> None \<Longrightarrow> q \<noteq> [] \<Longrightarrow> is_dir (lookup w p)"
proof (induction q rule: rev_induct)
  case Nil
  then show ?case by simp
next
  case (snoc c q)
  from snoc.prems have d: "is_dir (lookup w (p @ q))"
    using wf_world_parent [of w "p @ q" c] by simp
  show ?case
  proof (cases "q = []")
    case True
    with d show ?thesis by simp
  next
    case False
    with d snoc show ?thesis by (auto simp: is_dir_iff)
  qed
qed

lemma changes_frame:
  "changes w w' D \<Longrightarrow> lookup w' q \<noteq> lookup w q \<Longrightarrow>
   prefix D q \<or> (prefix q D \<and> lookup w q = None)"
  unfolding changes_def by blast

lemma changes_same:
  assumes "changes w w' D" "\<not> prefix D q" "\<not> prefix q D \<or> lookup w q \<noteq> None"
  shows "lookup w' q = lookup w q"
proof (rule ccontr)
  assume "lookup w' q \<noteq> lookup w q"
  from changes_frame [OF assms(1) this] assms(2,3) show False
    by blast
qed

lemma changes_kind:
  "changes w w' D \<Longrightarrow> lookup w q = Some n \<Longrightarrow>
   \<exists>n'. lookup w' q = Some n' \<and> node_is_dir n' = node_is_dir n"
  unfolding changes_def by blast

lemma changes_cwd: "changes w w' D \<Longrightarrow> cwd w' = cwd w"
  unfolding changes_def by blast

lemma changes_umask: "changes w w' D \<Longrightarrow> umask w' = umask w"
  unfolding changes_def by blast

lemma changes_wf: "changes w w' D \<Longrightarrow> wf_world w \<Longrightarrow> wf_world w'"
  unfolding changes_def by blast

lemma changes_is_dir:
  assumes "changes w w' D" "is_dir (lookup w q)"
  shows "is_dir (lookup w' q)"
proof -
  from assms(2) obtain m where "lookup w q = Some (Dir m)"
    by (auto simp: is_dir_iff)
  with assms(1) obtain n' where "lookup w' q = Some n'" "node_is_dir n'"
    using changes_kind by fastforce
  then show ?thesis
    by (cases n') auto
qed

lemma changes_refl: "changes w w D"
  by (simp add: changes_def)

lemma changes_emit: "changes w (emit e w) D"
  by (simp add: changes_def wf_world_iff)

lemma changes_trans:
  assumes "changes w w1 D1" "changes w1 w2 D2" "prefix D D1" "prefix D D2"
  shows "changes w w2 D"
proof -
  have frame: "prefix D q \<or> (prefix q D \<and> lookup w q = None)" if "lookup w2 q \<noteq> lookup w q" for q
  proof (cases "lookup w1 q = lookup w q")
    case True
    with that have "prefix D2 q \<or> (prefix q D2 \<and> lookup w q = None)"
      using changes_frame [OF assms(2), of q] by simp
    with assms(4) show ?thesis
      by (meson prefix_order.trans prefix_same_cases)
  next
    case False
    then have "prefix D1 q \<or> (prefix q D1 \<and> lookup w q = None)"
      using changes_frame [OF assms(1), of q] by simp
    with assms(3) show ?thesis
      by (meson prefix_order.trans prefix_same_cases)
  qed
  have mono: "\<exists>n'. lookup w2 q = Some n' \<and> node_is_dir n' = node_is_dir n" if "lookup w q = Some n" for q n
  proof -
    from that obtain n1 where "lookup w1 q = Some n1" "node_is_dir n1 = node_is_dir n"
      using changes_kind [OF assms(1)] by blast
    then show ?thesis
      using changes_kind [OF assms(2), of q n1] by auto
  qed
  have "cwd w2 = cwd w" "umask w2 = umask w" "wf_world w \<longrightarrow> wf_world w2"
    using assms(1,2) by (simp_all add: changes_cwd changes_umask changes_wf)
  with frame mono show ?thesis
    unfolding changes_def by blast
qed


lemma wf_world_put:
  assumes "wf_world w"
    "lookup w p = None \<Longrightarrow> list_all valid_name p \<and> p \<noteq> [] \<and> is_dir (lookup w (butlast p))"
    "is_dir (lookup w p) \<longrightarrow> node_is_dir n"
  shows "wf_world (put p n w)"
proof -
  have dir: "is_dir (lookup (put p n w) q)" if "is_dir (lookup w q)" for q
    using that assms(3) by (cases n) (auto simp: is_dir_iff)
  show ?thesis
    unfolding wf_world_iff
  proof (intro conjI allI impI)
    fix q
    assume q: "lookup (put p n w) q \<noteq> None"
    show "list_all valid_name q"
      using q assms(1,2) by (cases "lookup w p") (auto simp: wf_world_iff split: if_splits)
    assume "q \<noteq> []"
    with q assms(1,2) have "is_dir (lookup w (butlast q))"
      by (cases "lookup w p") (auto simp: wf_world_iff split: if_splits)
    then show "is_dir (lookup (put p n w) (butlast q))"
      by (rule dir)
  next
    show "list_all valid_name (cwd (put p n w))"
      using assms(1) by (simp add: wf_world_iff)
    show "is_dir (lookup (put p n w) [])"
      using assms(1) by (intro dir) (simp add: wf_world_iff)
    show "is_dir (lookup (put p n w) (cwd (put p n w)))"
      using assms(1) dir [of "cwd w"] by (simp add: wf_world_iff)
  qed
qed

lemma changes_put:
  assumes "lookup w p = None \<Longrightarrow>
      (wf_world w \<longrightarrow> list_all valid_name p) \<and> p \<noteq> [] \<and> is_dir (lookup w (butlast p))"
    "\<And>n0. lookup w p = Some n0 \<Longrightarrow> node_is_dir n0 = node_is_dir n"
  shows "changes w (put p n w) p"
proof -
  have "is_dir (lookup w p) \<longrightarrow> node_is_dir n"
    using assms(2) by (auto simp: is_dir_iff)
  with assms(1) have "wf_world w \<longrightarrow> wf_world (put p n w)"
    by (auto intro!: wf_world_put)
  with assms(2) show ?thesis
    by (auto simp: changes_def)
qed

lemma mkdir_cases:
  assumes "mkdir w p perm = (ok, w')"
  obtains (made) "ok" "w' = put p (Dir (mkdir_mode w p perm)) w" "p \<noteq> []"
      "lookup w p = None" "is_dir (lookup w (butlast p))"
  | (failed) "\<not> ok" "w' = w"
  using assms by (auto simp: mkdir_def split: if_splits)

lemma prefix_butlast_iff: "p \<noteq> [] \<Longrightarrow> prefix q p \<longleftrightarrow> q = p \<or> prefix q (butlast p)"
  by (metis append_butlast_last_id prefix_snoc)

lemma mkdirAll_spec:
  "mkdirAll w p perm = (ok, w') \<Longrightarrow>
   cwd w' = cwd w \<and> umask w' = umask w \<and> trace w' = trace w
   \<and> (\<not> ok \<longrightarrow> w' = w) \<and> (ok \<longrightarrow> is_dir (lookup w' p))
   \<and> (wf_world w \<longrightarrow> list_all valid_name p \<longrightarrow> wf_world w')
   \<and> (\<forall>q. lookup w' q \<noteq> lookup w q \<longrightarrow>
         ok \<and> prefix q p \<and> lookup w q = None \<and> is_dir (lookup w' q))"
proof (induction w p perm arbitrary: ok w' rule: mkdirAll.induct)
  case (1 w p perm)
  show ?case
  proof (cases "lookup w p")
    case (Some n)
    with "1.prems" show ?thesis
      by (cases n) (auto simp: mkdirAll.simps [of w p])
  next
    case None
    show ?thesis
    proof (cases "p = []")
      case True
      with None "1.prems" show ?thesis
        by (simp add: mkdirAll.simps [of w "[]"])
    next
      case False
      obtain ok1 w1 where parent: "mkdirAll w (butlast p) perm = (ok1, w1)"
        by (cases "mkdirAll w (butlast p) perm")
      note IH = "1.IH" [OF None False parent]
      show ?thesis
      proof (cases ok1)
        case False
        with parent None \<open>p \<noteq> []\<close> "1.prems" IH show ?thesis
          by (simp add: mkdirAll.simps [of w p])
      next
        case True
        with IH have w1: "cwd w1 = cwd w" "umask w1 = umask w" "trace w1 = trace w"
          "is_dir (lookup w1 (butlast p))"
          and look1: "\<And>q. lookup w1 q \<noteq> lookup w q \<Longrightarrow>
             prefix q (butlast p) \<and> lookup w q = None \<and> is_dir (lookup w1 q)"
          and wf1: "wf_world w \<longrightarrow> list_all valid_name (butlast p) \<longrightarrow> wf_world w1"
          by simp_all
        from \<open>p \<noteq> []\<close> have "length (butlast p) < length p"
          by (cases p rule: rev_cases) simp_all
        then have "\<not> prefix p (butlast p)"
          by (auto dest: prefix_length_le)
        have none1: "lookup w1 p = None"
        proof (rule ccontr)
          assume "lookup w1 p \<noteq> None"
          with None have "lookup w1 p \<noteq> lookup w p"
            by simp
          from look1 [OF this] \<open>\<not> prefix p (butlast p)\<close> show False
            by simp
        qed
        with \<open>p \<noteq> []\<close> w1 have mk: "mkdir w1 p perm = (True, put p (Dir (mkdir_mode w1 p perm)) w1)"
          by (simp add: mkdir_def)
        with parent True None \<open>p \<noteq> []\<close> "1.prems"
        have res: "ok" "w' = put p (Dir (mkdir_mode w1 p perm)) w1"
          by (simp_all add: mkdirAll.simps [of w p])
        have valid: "list_all valid_name (butlast p)" if "list_all valid_name p"
          using that by (auto simp: list_all_iff dest: in_set_butlastD)
        have "wf_world w'" if "wf_world w" "list_all valid_name p"
          unfolding res
          using that wf1 valid w1 none1 \<open>p \<noteq> []\<close>
          by (intro wf_world_put) auto
        moreover have "ok \<and> prefix q p \<and> lookup w q = None \<and> is_dir (lookup w' q)"
          if "lookup w' q \<noteq> lookup w q" for q
        proof (cases "q = p")
          case True
          with res None show ?thesis by simp
        next
          case False
          with that res have "lookup w1 q \<noteq> lookup w q"
            by simp
          from look1 [OF this] False res \<open>p \<noteq> []\<close> show ?thesis
            by (simp add: prefix_butlast_iff)
        qed
        ultimately show ?thesis
          using res w1 by simp
      qed
    qed
  qed
qed


lemma changes_trans_same:
  "changes w w1 D \<Longrightarrow> changes w1 w2 D \<Longrightarrow> changes w w2 D"
  by (rule changes_trans) auto

lemma changes_emit_left: "changes (emit e w) w' D \<Longrightarrow> changes w w' D"
  by (rule changes_trans_same [OF changes_emit])

lemma wf_resolve: "wf_world w \<Longrightarrow> list_all valid_name (resolve (cwd w) name)"
  by (simp add: wf_world_iff resolve_valid)

lemma os_MkdirAll_changes:
  assumes "os_MkdirAll w name perm = (r, w')"
  shows "changes w w' (resolve (cwd w) name)"
proof (cases "name = []")
  case True
  with assms show ?thesis
    by (auto simp: os_MkdirAll_def Let_def changes_emit)
next
  case False
  let ?w0 = "emit (MkdirAll name perm) w"
  let ?D = "resolve (cwd w) name"
  obtain ok w1 where mk: "mkdirAll ?w0 ?D perm = (ok, w1)"
    by (cases "mkdirAll ?w0 ?D perm")
  with assms False have w': "w' = w1"
    by (cases ok) (simp_all add: os_MkdirAll_def Let_def)
  note spec = mkdirAll_spec [OF mk]
  have "changes ?w0 w1 ?D"
    unfolding changes_def
  proof (intro conjI allI impI)
    show "cwd w1 = cwd ?w0" "umask w1 = umask ?w0"
      using spec by simp_all
    show "wf_world w1" if "wf_world ?w0"
      using spec that wf_resolve [OF that] by simp
    show "prefix ?D q \<or> prefix q ?D \<and> lookup ?w0 q = None" if "lookup w1 q \<noteq> lookup ?w0 q" for q
      using spec that by blast
    show "\<exists>n'. lookup w1 q = Some n' \<and> node_is_dir n' = node_is_dir n" if "lookup ?w0 q = Some n" for q n
      using spec that by (metis option.distinct(1))
  qed
  then show ?thesis
    unfolding w' by (rule changes_emit_left)
qed

lemma os_MkdirAll_ok:
  assumes "os_MkdirAll w name perm = (None, w')"
  shows "name \<noteq> []" "is_dir (lookup w' (resolve (cwd w) name))"
    "\<And>q. lookup w' q \<noteq> lookup w q \<Longrightarrow>
        prefix q (resolve (cwd w) name) \<and> lookup w q = None \<and> is_dir (lookup w' q)"
proof -
  show ne: "name \<noteq> []"
    using assms by (auto simp: os_MkdirAll_def Let_def)
  let ?w0 = "emit (MkdirAll name perm) w"
  let ?D = "resolve (cwd w) name"
  obtain ok w1 where mk: "mkdirAll ?w0 ?D perm = (ok, w1)"
    by (cases "mkdirAll ?w0 ?D perm")
  with assms ne have w': "w' = w1" "ok"
    by (cases ok; simp add: os_MkdirAll_def Let_def)+
  note spec = mkdirAll_spec [OF mk]
  show "is_dir (lookup w' ?D)"
    using spec w' by simp
  show "prefix q ?D \<and> lookup w q = None \<and> is_dir (lookup w' q)"
    if "lookup w' q \<noteq> lookup w q" for q
    using spec w' that by simp
qed

lemma mkdirAll_succeeds:
  "wf_world w \<Longrightarrow> \<forall>q. prefix q p \<longrightarrow> \<not> is_file (lookup w q) \<Longrightarrow> fst (mkdirAll w p perm)"
proof (induction w p perm rule: mkdirAll.induct)
  case (1 w p perm)
  show ?case
  proof (cases "lookup w p")
    case (Some n)
    with "1.prems"(2) show ?thesis
      by (cases n) (auto simp: mkdirAll.simps [of w p])
  next
    case None
    with "1.prems"(1) have ne: "p \<noteq> []"
      by (auto simp: wf_world_iff)
    obtain ok1 w1 where parent: "mkdirAll w (butlast p) perm = (ok1, w1)"
      by (cases "mkdirAll w (butlast p) perm")
    have "\<forall>q. prefix q (butlast p) \<longrightarrow> \<not> is_file (lookup w q)"
      using "1.prems"(2) ne by (simp add: prefix_butlast_iff)
    with "1.IH" [OF None ne "1.prems"(1)] parent have ok1
      by simp
    note spec = mkdirAll_spec [OF parent]
    from ne have "length (butlast p) < length p"
      by (cases p rule: rev_cases) simp_all
    then have "\<not> prefix p (butlast p)"
      by (auto dest: prefix_length_le)
    with spec None have "lookup w1 p = None"
      by (metis)
    with spec \<open>ok1\<close> ne have "mkdir w1 p perm = (True, put p (Dir (mkdir_mode w1 p perm)) w1)"
      by (simp add: mkdir_def)
    with parent \<open>ok1\<close> None ne show ?thesis
      by (simp add: mkdirAll.simps [of w p])
  qed
qed

lemma os_MkdirAll_succeeds:
  assumes "wf_world w" "name \<noteq> []" "\<forall>q. prefix q (resolve (cwd w) name) \<longrightarrow> \<not> is_file (lookup w q)"
  shows "\<exists>w'. os_MkdirAll w name perm = (None, w')"
proof -
  let ?w0 = "emit (MkdirAll name perm) w"
  have "wf_world ?w0"
    using assms(1) by (simp add: wf_world_iff)
  then have "fst (mkdirAll ?w0 (resolve (cwd w) name) perm)"
    using assms(3) by (intro mkdirAll_succeeds) simp_all
  with assms(2) show ?thesis
    by (cases "mkdirAll ?w0 (resolve (cwd w) name) perm") (simp add: os_MkdirAll_def Let_def)
qed

lemma changes_put_emit:
  assumes "lookup w p = None \<Longrightarrow>
      (wf_world w \<longrightarrow> list_all valid_name p) \<and> p \<noteq> [] \<and> is_dir (lookup w (butlast p))"
    "\<And>n0. lookup w p = Some n0 \<Longrightarrow> node_is_dir n0 = node_is_dir n"
  shows "changes w (put p n (emit e w)) p"
proof -
  have "wf_world (emit e w) = wf_world w"
    by (simp add: wf_world_iff)
  with assms have "changes (emit e w) (put p n (emit e w)) p"
    by (intro changes_put) simp_all
  then show ?thesis
    by (rule changes_emit_left)
qed

lemma os_Create_cases:
  assumes "os_Create w name = (r, w1)"
  obtains
    (trunc) m b where "name \<noteq> []" "r = Inr (resolve (cwd w) name)"
      "lookup w (resolve (cwd w) name) = Some (File m b)"
      "w1 = put (resolve (cwd w) name) (File m []) (emit (Create name) w)"
  | (new) "name \<noteq> []" "r = Inr (resolve (cwd w) name)"
      "lookup w (resolve (cwd w) name) = None" "resolve (cwd w) name \<noteq> []"
      "is_dir (lookup w (butlast (resolve (cwd w) name)))"
      "w1 = put (resolve (cwd w) name) (File (0x1B6 AND NOT (umask w)) []) (emit (Create name) w)"
  | (failed) e where "r = Inl e" "w1 = emit (Create name) w"
  using assms
  by (auto simp: os_Create_def Let_def split: if_splits option.splits node.splits)

lemma os_Create_changes:
  assumes "os_Create w name = (r, w1)"
  shows "changes w w1 (resolve (cwd w) name)"
  using assms
proof (cases rule: os_Create_cases)
  case (trunc m b)
  then show ?thesis
    by (auto intro!: changes_put_emit)
next
  case new
  then show ?thesis
    by (auto intro!: changes_put_emit simp: wf_resolve)
next
  case (failed e)
  then show ?thesis
    by (simp add: changes_emit)
qed

lemma io_Copy_cases:
  assumes "io_Copy w name dstfd srcfd = (r, w1)"
  obtains
    (copied) m b m' b' where "r = None" "lookup w srcfd = Some (File m b)"
      "lookup w dstfd = Some (File m' b')"
      "w1 = put dstfd (File m' (b' @ b)) (emit (Write name b) w)"
  | (failed) e where "r = Some e" "w1 = w"
  using assms
  by (auto simp: io_Copy_def split: option.splits node.splits)

lemma io_Copy_changes:
  assumes "io_Copy w name dstfd srcfd = (r, w1)"
  shows "changes w w1 dstfd"
  using assms
proof (cases rule: io_Copy_cases)
  case (copied m b m' b')
  then show ?thesis
    by (auto intro!: changes_put_emit)
next
  case (failed e)
  then show ?thesis
    by (simp add: changes_refl)
qed

lemma os_Chmod_cases:
  assumes "os_Chmod w name mode = (r, w1)"
  obtains
    (chfile) m b where "r = None" "name \<noteq> []" "lookup w (resolve (cwd w) name) = Some (File m b)"
      "w1 = put (resolve (cwd w) name) (File mode b) (emit (Chmod name mode) w)"
  | (chdir) m where "r = None" "name \<noteq> []" "lookup w (resolve (cwd w) name) = Some (Dir m)"
      "w1 = put (resolve (cwd w) name) (Dir mode) (emit (Chmod name mode) w)"
  | (failed) e where "r = Some e" "w1 = emit (Chmod name mode) w"
  using assms
  by (auto simp: os_Chmod_def Let_def split: if_splits option.splits node.splits)

lemma os_Chmod_changes:
  assumes "os_Chmod w name mode = (r, w1)"
  shows "changes w w1 (resolve (cwd w) name)"
  using assms
proof (cases rule: os_Chmod_cases)
  case (chfile m b)
  then show ?thesis
    by (auto intro!: changes_put_emit)
next
  case (chdir m)
  then show ?thesis
    by (auto intro!: changes_put_emit)
next
  case (failed e)
  then show ?thesis
    by (simp add: changes_emit)
qed

lemma copyFile_changes:
  assumes "copyFile w src dst = (r, w')"
  shows "changes w w' (resolve (cwd w) dst)"
proof (cases "os_Open w src")
  case (Inl e)
  with assms show ?thesis
    by (simp add: copyFile_def changes_refl)
next
  case (Inr srcfd)
  obtain r1 w1 where create: "os_Create w dst = (r1, w1)"
    by (cases "os_Create w dst")
  note c1 = os_Create_changes [OF create]
  show ?thesis
  proof (cases r1)
    case (Inl e)
    with assms Inr create c1 show ?thesis
      by (simp add: copyFile_def)
  next
    case dstfd: (Inr dstfd)
    with create have dstfd_eq: "dstfd = resolve (cwd w) dst"
      by (cases rule: os_Create_cases) auto
    obtain r2 w2 where copy: "io_Copy w1 dst dstfd srcfd = (r2, w2)"
      by (cases "io_Copy w1 dst dstfd srcfd")
    have c2: "changes w w2 (resolve (cwd w) dst)"
      using c1 io_Copy_changes [OF copy] unfolding dstfd_eq by (rule changes_trans_same)
    show ?thesis
    proof (cases r2)
      case (Some e)
      with assms Inr create dstfd copy c2 show ?thesis
        by (simp add: copyFile_def)
    next
      case None
      show ?thesis
      proof (cases "os_Stat w2 src")
        case (Inl e)
        with assms Inr create dstfd copy None c2 show ?thesis
          by (simp add: copyFile_def)
      next
        case info: (Inr srcinfo)
        with assms Inr create dstfd copy None
        have "os_Chmod w2 dst (Mode srcinfo) = (r, w')"
          by (simp add: copyFile_def)
        from os_Chmod_changes [OF this] c2 show ?thesis
          by (auto intro: changes_trans_same simp: changes_cwd [OF c2])
      qed
    qed
  qed
qed

lemma copyFile_ok:
  assumes "copyFile w src dst = (None, w')" "resolve (cwd w) src \<noteq> resolve (cwd w) dst"
  shows "\<exists>m b. lookup w (resolve (cwd w) src) = Some (File m b)
           \<and> lookup w' (resolve (cwd w) dst) = Some (File m b)"
proof -
  let ?S = "resolve (cwd w) src" and ?D = "resolve (cwd w) dst"
  from assms(1) obtain srcfd where op: "os_Open w src = Inr srcfd"
    by (cases "os_Open w src") (auto simp: copyFile_def)
  then have srcfd: "srcfd = ?S" "src \<noteq> []"
    by (auto simp: os_Open_def split: if_splits option.splits)
  obtain r1 w1 where create: "os_Create w dst = (r1, w1)"
    by (cases "os_Create w dst")
  with assms(1) op obtain dstfd where r1: "r1 = Inr dstfd"
    by (cases r1) (auto simp: copyFile_def)
  from create r1 obtain m0 where w1: "dstfd = ?D" "w1 = put ?D (File m0 []) (emit (Create dst) w)"
    by (cases rule: os_Create_cases) auto
  obtain r2 w2 where copy: "io_Copy w1 dst dstfd srcfd = (r2, w2)"
    by (cases "io_Copy w1 dst dstfd srcfd")
  with assms(1) op create r1 have r2: "r2 = None"
    by (cases r2) (auto simp: copyFile_def)
  from copy r2 obtain m b where src: "lookup w1 srcfd = Some (File m b)"
    and w2: "w2 = put dstfd (File m0 b) (emit (Write dst b) w1)"
    by (cases rule: io_Copy_cases) (auto simp: w1)
  from src assms(2) have src0: "lookup w ?S = Some (File m b)"
    by (simp add: w1 srcfd)
  with assms(2) have "os_Stat w2 src = Inr (file_info (basename src) (File m b))"
    by (simp add: os_Stat_def w2 w1 srcfd)
  with assms(1) op create r1 copy r2 have "os_Chmod w2 dst m = (None, w')"
    by (simp add: copyFile_def file_info_def)
  then have "lookup w' ?D = Some (File m b)"
    by (cases rule: os_Chmod_cases) (auto simp: w2 w1)
  with src0 show ?thesis
    by simp
qed

lemma copyFile_succeeds:
  assumes "lookup w (resolve (cwd w) src) = Some (File m b)"
    "resolve (cwd w) src \<noteq> resolve (cwd w) dst" "src \<noteq> []" "dst \<noteq> []"
    "\<not> is_dir (lookup w (resolve (cwd w) dst))"
    "lookup w (resolve (cwd w) dst) = None \<Longrightarrow>
       resolve (cwd w) dst \<noteq> [] \<and> is_dir (lookup w (butlast (resolve (cwd w) dst)))"
  shows "\<exists>w'. copyFile w src dst = (None, w')"
proof -
  let ?S = "resolve (cwd w) src" and ?D = "resolve (cwd w) dst"
  have op: "os_Open w src = Inr ?S"
    using assms(1,3) by (simp add: os_Open_def)
  obtain m0 where create: "os_Create w dst = (Inr ?D, put ?D (File m0 []) (emit (Create dst) w))"
  proof (cases "lookup w ?D")
    case None
    with assms(4,6) that show ?thesis
      by (simp add: os_Create_def Let_def)
  next
    case (Some n)
    with assms(5) obtain m0 b0 where "n = File m0 b0"
      by (cases n) auto
    with Some assms(4) that show ?thesis
      by (simp add: os_Create_def Let_def)
  qed
  let ?w1 = "put ?D (File m0 []) (emit (Create dst) w)"
  have copy: "io_Copy ?w1 dst ?D ?S = (None, put ?D (File m0 b) (emit (Write dst b) ?w1))"
    using assms(1,2) by (simp add: io_Copy_def)
  let ?w2 = "put ?D (File m0 b) (emit (Write dst b) ?w1)"
  have stat: "os_Stat ?w2 src = Inr (file_info (basename src) (File m b))"
    using assms(1,2,3) by (simp add: os_Stat_def)
  have "\<exists>w'. os_Chmod ?w2 dst m = (None, w')"
    using assms(4) by (simp add: os_Chmod_def Let_def)
  with op create copy stat show ?thesis
    by (simp add: copyFile_def file_info_def)
qed


lemma set_entry_names: "set (entry_names w p) = {c. lookup w (p @ [c]) \<noteq> None}"
proof -
  have "c \<in> set (entry_names w p) \<longleftrightarrow> p @ [c] \<in> set (map fst (files w))" for c
  proof
    assume "c \<in> set (entry_names w p)"
    then obtain q where "q \<in> set (map fst (files w))" "q \<noteq> []" "butlast q = p" "last q = c"
      by (auto simp: entry_names_def)
    then show "p @ [c] \<in> set (map fst (files w))"
      by (metis append_butlast_last_id)
  next
    assume "p @ [c] \<in> set (map fst (files w))"
    then have "last (p @ [c]) \<in> set (entry_names w p)"
      unfolding entry_names_def by (auto intro!: image_eqI [where x = "p @ [c]"])
    then show "c \<in> set (entry_names w p)"
      by simp
  qed
  then show ?thesis
    unfolding lookup_Some_iff_key by blast
qed

lemma distinct_entry_names: "distinct (entry_names w p)"
  by (simp add: entry_names_def)

lemma Name_file_info [simp]: "Name (file_info c n) = c"
  by (simp add: file_info_def)

lemma IsDir_file_info [simp]: "IsDir (file_info c n) = node_is_dir n"
  by (simp add: file_info_def)

lemma Mode_file_info [simp]: "Mode (file_info c n) = node_mode n"
  by (simp add: file_info_def)

lemma Name_dir_entries: "map Name (dir_entries w p) = entry_names w p"
proof -
  have "map Name (concat (map (\<lambda>c. case lookup w (p @ [c]) of None \<Rightarrow> [] | Some n \<Rightarrow> [file_info c n]) cs)) = cs"
    if "set cs \<subseteq> {c. lookup w (p @ [c]) \<noteq> None}" for cs
    using that by (induction cs) auto
  then show ?thesis
    unfolding dir_entries_def using set_entry_names [of w p] by blast
qed

lemma distinct_Name_dir_entries: "distinct (map Name (dir_entries w p))"
  by (simp add: Name_dir_entries distinct_entry_names)

lemma dir_entries_mem:
  "fd \<in> set (dir_entries w p) \<longleftrightarrow>
   (\<exists>n. lookup w (p @ [Name fd]) = Some n \<and> fd = file_info (Name fd) n)"
  by (auto simp: dir_entries_def set_entry_names split: option.splits)

lemma dir_entries_valid_name:
  "wf_world w \<Longrightarrow> fd \<in> set (dir_entries w p) \<Longrightarrow> valid_name (Name fd)"
  by (auto simp: dir_entries_mem intro: wf_world_name [of w p])

lemma copyDir_range_rule:
  assumes run: "copyDir_range rec w src dst fds = Some (r, w')"
    and init: "Inv [] w"
    and step: "\<And>pre fd post w1 r1 w2.
      fds = pre @ fd # post \<Longrightarrow> Inv pre w1 \<Longrightarrow> copy_entry rec w1 src dst fd = Some (r1, w2) \<Longrightarrow>
      (case r1 of None \<Rightarrow> Inv (pre @ [fd]) w2 | Some e \<Rightarrow> Fail w2)"
  shows "case r of None \<Rightarrow> Inv fds w' | Some e \<Rightarrow> Fail w'"
proof -
  have "case r of None \<Rightarrow> Inv (pre @ todo) w' | Some e \<Rightarrow> Fail w'"
    if "fds = pre @ todo" "Inv pre w0" "copyDir_range rec w0 src dst todo = Some (r, w')"
    for pre todo w0
    using that
  proof (induction todo arbitrary: pre w0)
    case Nil
    then show ?case by simp
  next
    case (Cons fd todo)
    from Cons.prems(3) obtain r1 w2 where entry: "copy_entry rec w0 src dst fd = Some (r1, w2)"
      by (cases "copy_entry rec w0 src dst fd") auto
    from step [OF Cons.prems(1,2) entry]
    have s: "case r1 of None \<Rightarrow> Inv (pre @ [fd]) w2 | Some e \<Rightarrow> Fail w2" .
    show ?case
    proof (cases r1)
      case None
      with entry Cons.prems(3) have "copyDir_range rec w2 src dst todo = Some (r, w')"
        by simp
      moreover from s None have "Inv (pre @ [fd]) w2"
        by simp
      ultimately have "case r of None \<Rightarrow> Inv ((pre @ [fd]) @ todo) w' | Some e \<Rightarrow> Fail w'"
        using Cons.prems(1) by (intro Cons.IH) simp_all
      then show ?thesis by (cases r) simp_all
    next
      case (Some e)
      with entry Cons.prems(3) s show ?thesis
        by auto
    qed
  qed
  from this [of "[]" fds w] run init show ?thesis
    by (cases r) simp_all
qed

lemma copyDir_range_succeeds:
  assumes init: "Inv [] w"
    and step: "\<And>pre fd post w1.
      fds = pre @ fd # post \<Longrightarrow> Inv pre w1 \<Longrightarrow>
      \<exists>w2. copy_entry rec w1 src dst fd = Some (None, w2) \<and> Inv (pre @ [fd]) w2"
  shows "\<exists>w'. copyDir_range rec w src dst fds = Some (None, w') \<and> Inv fds w'"
proof -
  have "\<exists>w'. copyDir_range rec w0 src dst todo = Some (None, w') \<and> Inv (pre @ todo) w'"
    if "fds = pre @ todo" "Inv pre w0" for pre todo w0
    using that
  proof (induction todo arbitrary: pre w0)
    case Nil
    then show ?case by simp
  next
    case (Cons fd todo)
    from step [OF Cons.prems] obtain w2
      where entry: "copy_entry rec w0 src dst fd = Some (None, w2)" and inv: "Inv (pre @ [fd]) w2"
      by blast
    from Cons.prems(1) have "fds = (pre @ [fd]) @ todo"
      by simp
    from Cons.IH [OF this inv] entry show ?case
      by simp
  qed
  from this [of "[]" fds w] init show ?thesis
    by simp
qed

lemma resolve_entry:
  assumes "p \<noteq> []" "valid_name (Name fd)"
  shows "resolve wd (path_Join [p, Name fd]) = resolve wd p @ [Name fd]"
  using assms by (rule resolve_path_Join2)

lemma copy_entry_changes:
  assumes entry: "copy_entry rec w src dst fd = Some (r, w')"
    and rec: "\<And>s d r w'. rec w s d = Some (r, w') \<Longrightarrow> changes w w' (resolve (cwd w) d)"
    and "dst \<noteq> []" "valid_name (Name fd)"
  shows "changes w w' (resolve (cwd w) dst @ [Name fd])"
proof -
  have D: "resolve (cwd w) (path_Join [dst, Name fd]) = resolve (cwd w) dst @ [Name fd]"
    using assms(3,4) by (rule resolve_entry)
  show ?thesis
  proof (cases "IsDir fd")
    case True
    with entry have "rec w (path_Join [src, Name fd]) (path_Join [dst, Name fd]) = Some (r, w')"
      by (simp add: copy_entry_def Let_def)
    from rec [OF this] D show ?thesis
      by simp
  next
    case False
    with entry have "copyFile w (path_Join [src, Name fd]) (path_Join [dst, Name fd]) = (r, w')"
      by (simp add: copy_entry_def Let_def)
    from copyFile_changes [OF this] D show ?thesis
      by simp
  qed
qed

lemma copyDir_changes:
  "copyDir fuel w src dst = Some (r, w') \<Longrightarrow> wf_world w \<Longrightarrow> changes w w' (resolve (cwd w) dst)"
proof (induction fuel arbitrary: w src dst r w')
  case 0
  then show ?case by simp
next
  case (Suc fuel)
  let ?D = "resolve (cwd w) dst"
  show ?case
  proof (cases "os_Stat w src")
    case (Inl e)
    with Suc.prems show ?thesis
      by (simp add: changes_refl)
  next
    case (Inr srcinfo)
    obtain r1 w1 where mk: "os_MkdirAll w dst (Mode srcinfo) = (r1, w1)"
      by (cases "os_MkdirAll w dst (Mode srcinfo)")
    note c1 = os_MkdirAll_changes [OF mk]
    show ?thesis
    proof (cases r1)
      case (Some e)
      with Suc.prems Inr mk c1 show ?thesis
        by simp
    next
      case None
      with mk have ne: "dst \<noteq> []"
        using os_MkdirAll_ok(1) by blast
      have wf1: "wf_world w1"
        using c1 Suc.prems(2) by (rule changes_wf)
      show ?thesis
      proof (cases "ioutil_ReadDir w1 src")
        case (Inl e)
        with Suc.prems Inr mk None c1 show ?thesis
          by simp
      next
        case fds: (Inr fds)
        then have fds_eq: "fds = dir_entries w1 (resolve (cwd w1) src)"
          by (auto simp: ioutil_ReadDir_def split: if_splits)
        from Suc.prems Inr mk None fds
        have loop: "copyDir_range (copyDir fuel) w1 src dst fds = Some (r, w')"
          by simp
        let ?Inv = "\<lambda>pre :: FileInfo list. \<lambda>wi. changes w1 wi ?D"
        have "case r of None \<Rightarrow> ?Inv fds w' | Some e \<Rightarrow> changes w1 w' ?D"
          using loop
        proof (rule copyDir_range_rule)
          show "changes w1 w1 ?D"
            by (rule changes_refl)
        next
          fix pre fd post wi r1 w2
          assume split: "fds = pre @ fd # post" and inv: "changes w1 wi ?D"
            and entry: "copy_entry (copyDir fuel) wi src dst fd = Some (r1, w2)"
          have wfi: "wf_world wi"
            using inv wf1 by (rule changes_wf)
          have cwdi: "cwd wi = cwd w"
            using inv c1 by (simp add: changes_cwd)
          from split have "fd \<in> set fds"
            by simp
          with wf1 have name: "valid_name (Name fd)"
            unfolding fds_eq by (rule dir_entries_valid_name)
          have "changes wi w2 (resolve (cwd wi) dst @ [Name fd])"
            using entry
          proof (rule copy_entry_changes)
            show "changes wi w'' (resolve (cwd wi) d)" if "copyDir fuel wi s d = Some (r', w'')" for s d r' w''
              using that wfi by (rule Suc.IH)
          qed (use ne name in auto)
          with inv have "changes w1 w2 ?D"
            unfolding cwdi by (rule changes_trans) auto
          then show "case r1 of None \<Rightarrow> changes w1 w2 ?D | Some e \<Rightarrow> changes w1 w2 ?D"
            by (cases r1) auto
        qed
        then have "changes w1 w' ?D"
          by (cases r) auto
        with c1 show ?thesis
          by (rule changes_trans_same)
      qed
    qed
  qed
qed

section \<open>Facts about the recursive copy\<close>

lemma os_MkdirAll_frame:
  assumes "os_MkdirAll w name perm = (r, w')" "lookup w' q \<noteq> lookup w q"
  shows "prefix q (resolve (cwd w) name) \<and> lookup w q = None \<and> is_dir (lookup w' q)"
proof (cases "name = []")
  case True
  with assms show ?thesis
    by (auto simp: os_MkdirAll_def Let_def)
next
  case False
  let ?w0 = "emit (MkdirAll name perm) w"
  obtain ok w1 where mk: "mkdirAll ?w0 (resolve (cwd w) name) perm = (ok, w1)"
    by (cases "mkdirAll ?w0 (resolve (cwd w) name) perm")
  with assms(1) False have "w' = w1"
    by (cases ok) (simp_all add: os_MkdirAll_def Let_def)
  with mkdirAll_spec [OF mk] assms(2) show ?thesis
    by simp
qed

lemma os_MkdirAll_trace:
  assumes "os_MkdirAll w name perm = (r, w')"
  shows "trace w' = trace w @ [MkdirAll name perm]"
proof (cases "name = []")
  case True
  with assms show ?thesis
    by (auto simp: os_MkdirAll_def Let_def)
next
  case False
  let ?w0 = "emit (MkdirAll name perm) w"
  obtain ok w1 where mk: "mkdirAll ?w0 (resolve (cwd w) name) perm = (ok, w1)"
    by (cases "mkdirAll ?w0 (resolve (cwd w) name) perm")
  with assms(1) False have "w' = w1"
    by (cases ok) (simp_all add: os_MkdirAll_def Let_def)
  with mkdirAll_spec [OF mk] show ?thesis
    by simp
qed

lemma copyFile_frame:
  assumes "copyFile w src dst = (r, w')" "q \<noteq> resolve (cwd w) dst"
  shows "lookup w' q = lookup w q"
proof (cases "os_Open w src")
  case (Inl e)
  with assms show ?thesis
    by (simp add: copyFile_def)
next
  case (Inr srcfd)
  obtain r1 w1 where create: "os_Create w dst = (r1, w1)"
    by (cases "os_Create w dst")
  then have f1: "lookup w1 q = lookup w q" "cwd w1 = cwd w"
    using assms(2) by (cases rule: os_Create_cases; simp)+
  show ?thesis
  proof (cases r1)
    case (Inl e)
    with assms Inr create f1 show ?thesis
      by (simp add: copyFile_def)
  next
    case dstfd: (Inr dstfd)
    with create have dstfd_eq: "dstfd = resolve (cwd w) dst"
      by (cases rule: os_Create_cases) auto
    obtain r2 w2 where copy: "io_Copy w1 dst dstfd srcfd = (r2, w2)"
      by (cases "io_Copy w1 dst dstfd srcfd")
    then have f2: "lookup w2 q = lookup w q" "cwd w2 = cwd w"
      using assms(2) f1 dstfd_eq by (cases rule: io_Copy_cases; simp)+
    show ?thesis
    proof (cases r2)
      case (Some e)
      with assms Inr create dstfd copy f2 show ?thesis
        by (simp add: copyFile_def)
    next
      case None
      show ?thesis
      proof (cases "os_Stat w2 src")
        case (Inl e)
        with assms Inr create dstfd copy None f2 show ?thesis
          by (simp add: copyFile_def)
      next
        case info: (Inr srcinfo)
        with assms Inr create dstfd copy None
        have "os_Chmod w2 dst (Mode srcinfo) = (r, w')"
          by (simp add: copyFile_def)
        then show ?thesis
          using assms(2) f2 by (cases rule: os_Chmod_cases) simp_all
      qed
    qed
  qed
qed

lemma apart_snoc: "apart S D \<Longrightarrow> apart (S @ [c]) (D @ [c])"
  by (auto simp: apart_def prefix_snoc dest: append_prefixD)

lemma apart_neq: "apart S D \<Longrightarrow> S @ x \<noteq> D"
  unfolding apart_def by auto

lemma apart_stable:
  assumes "changes w w' D" "apart S D"
  shows "lookup w' (S @ x) = lookup w (S @ x)"
  using assms(1)
proof (rule changes_same)
  have "prefix S (S @ x)"
    by simp
  then have "prefix D S \<or> prefix S D" if "prefix D (S @ x)"
    using that prefix_same_cases by blast
  with assms(2) show "\<not> prefix D (S @ x)"
    unfolding apart_def by blast
  from assms(2) have "\<not> prefix (S @ x) D"
    unfolding apart_def by (auto dest: append_prefixD)
  then show "\<not> prefix (S @ x) D \<or> lookup w (S @ x) \<noteq> None"
    by simp
qed

lemma copy_entry_cases:
  assumes "copy_entry rec w src dst fd = Some (r, w')" "src \<noteq> []" "dst \<noteq> []" "valid_name (Name fd)"
  obtains
    (is_dir) sp dp where "IsDir fd" "rec w sp dp = Some (r, w')"
      "resolve (cwd w) sp = resolve (cwd w) src @ [Name fd]"
      "resolve (cwd w) dp = resolve (cwd w) dst @ [Name fd]" "sp \<noteq> []" "dp \<noteq> []"
  | (is_file) sp dp where "\<not> IsDir fd" "copyFile w sp dp = (r, w')"
      "resolve (cwd w) sp = resolve (cwd w) src @ [Name fd]"
      "resolve (cwd w) dp = resolve (cwd w) dst @ [Name fd]" "sp \<noteq> []" "dp \<noteq> []"
proof (cases "IsDir fd")
  case True
  with assms(1) have "rec w (path_Join [src, Name fd]) (path_Join [dst, Name fd]) = Some (r, w')"
    by (simp add: copy_entry_def Let_def)
  with True show ?thesis
    using assms(2-4)
    by (intro is_dir [of "path_Join [src, Name fd]" "path_Join [dst, Name fd]"])
       (simp_all add: resolve_entry path_Join_not_Nil)
next
  case False
  with assms(1) have "copyFile w (path_Join [src, Name fd]) (path_Join [dst, Name fd]) = (r, w')"
    by (simp add: copy_entry_def Let_def)
  with False show ?thesis
    using assms(2-4)
    by (intro is_file [of "path_Join [src, Name fd]" "path_Join [dst, Name fd]"])
       (simp_all add: resolve_entry path_Join_not_Nil)
qed

lemma os_Stat_ok:
  "os_Stat w name = Inr info \<Longrightarrow>
   name \<noteq> [] \<and> (\<exists>n. lookup w (resolve (cwd w) name) = Some n \<and> Mode info = node_mode n
      \<and> IsDir info = node_is_dir n)"
  by (auto simp: os_Stat_def split: if_splits option.splits)

lemma ioutil_ReadDir_ok:
  "ioutil_ReadDir w name = Inr fds \<Longrightarrow>
   name \<noteq> [] \<and> is_dir (lookup w (resolve (cwd w) name)) \<and> fds = dir_entries w (resolve (cwd w) name)"
  by (auto simp: ioutil_ReadDir_def split: if_splits)

lemma copyDir_Suc_cases:
  assumes "copyDir (Suc fuel) w src dst = Some (r, w')"
  obtains
    (stat_failed) e where "os_Stat w src = Inl e" "r = Some e" "w' = w"
  | (mkdir_failed) info e where "os_Stat w src = Inr info"
      "os_MkdirAll w dst (Mode info) = (Some e, w')" "r = Some e"
  | (readdir_failed) info w1 e where "os_Stat w src = Inr info"
      "os_MkdirAll w dst (Mode info) = (None, w1)" "ioutil_ReadDir w1 src = Inl e"
      "r = Some e" "w' = w1"
  | (loop) info w1 fds where "os_Stat w src = Inr info"
      "os_MkdirAll w dst (Mode info) = (None, w1)" "ioutil_ReadDir w1 src = Inr fds"
      "copyDir_range (copyDir fuel) w1 src dst fds = Some (r, w')"
proof (cases "os_Stat w src")
  case (Inl e)
  with assms show ?thesis
    by (intro stat_failed [of e]) simp_all
next
  case (Inr info)
  obtain r1 w1 where mk: "os_MkdirAll w dst (Mode info) = (r1, w1)"
    by (cases "os_MkdirAll w dst (Mode info)")
  show ?thesis
  proof (cases r1)
    case (Some e)
    with assms Inr mk show ?thesis
      by (intro mkdir_failed [of info e]) simp_all
  next
    case None
    show ?thesis
    proof (cases "ioutil_ReadDir w1 src")
      case (Inl e)
      with assms Inr mk None show ?thesis
        by (intro readdir_failed [of info w1 e]) simp_all
    next
      case fds: (Inr fds)
      with assms Inr mk None show ?thesis
        by (intro loop [of info w1 fds]) simp_all
    qed
  qed
qed


lemma prefix_snoc_same: "prefix (D @ [c]) (D @ rel) \<longleftrightarrow> (\<exists>rel'. rel = c # rel')"
  by (cases rel) auto

lemma copyDir_untouched:
  "copyDir fuel w src dst = Some (r, w') \<Longrightarrow> wf_world w \<Longrightarrow>
   apart (resolve (cwd w) src) (resolve (cwd w) dst) \<Longrightarrow>
   lookup w (resolve (cwd w) src @ rel) = None \<Longrightarrow>
   lookup w' (resolve (cwd w) dst @ rel) = lookup w (resolve (cwd w) dst @ rel)"
proof (induction fuel arbitrary: w src dst r w' rel)
  case 0
  then show ?case by simp
next
  case (Suc fuel)
  let ?S = "resolve (cwd w) src" and ?D = "resolve (cwd w) dst"
  note wf = Suc.prems(2) and ap = Suc.prems(3) and absent = Suc.prems(4)
  have mkdir_only: "lookup w1 (?D @ rel) = lookup w (?D @ rel)"
    if "os_Stat w src = Inr info" "os_MkdirAll w dst (Mode info) = (r1, w1)" for info r1 w1
  proof (rule ccontr)
    assume "lookup w1 (?D @ rel) \<noteq> lookup w (?D @ rel)"
    from os_MkdirAll_frame [OF that(2) this] have "rel = []"
      by (auto dest: prefix_length_le)
    with absent os_Stat_ok [OF that(1)] show False
      by auto
  qed
  from Suc.prems(1) show ?case
  proof (cases rule: copyDir_Suc_cases)
    case (stat_failed e)
    then show ?thesis by simp
  next
    case (mkdir_failed info e)
    then show ?thesis by (simp add: mkdir_only)
  next
    case (readdir_failed info w1 e)
    then show ?thesis by (simp add: mkdir_only)
  next
    case (loop info w1 fds)
    note c1 = os_MkdirAll_changes [OF loop(2)]
    have wf1: "wf_world w1" and cwd1: "cwd w1 = cwd w"
      using c1 wf by (simp_all add: changes_wf changes_cwd)
    from os_Stat_ok [OF loop(1)] have src: "src \<noteq> []"
      by simp
    from os_MkdirAll_ok [OF loop(2)] have dst: "dst \<noteq> []"
      by simp
    from ioutil_ReadDir_ok [OF loop(3)] have fds: "fds = dir_entries w1 ?S"
      by (simp add: cwd1)
    have src1: "lookup w1 (?S @ x) = lookup w (?S @ x)" for x
      using c1 ap by (rule apart_stable)
    let ?Inv = "\<lambda>wi. changes w1 wi ?D
        \<and> (\<forall>rel. lookup w1 (?S @ rel) = None \<longrightarrow> lookup wi (?D @ rel) = lookup w1 (?D @ rel))"
    have "case r of None \<Rightarrow> (\<lambda>pre. ?Inv) fds w' | Some e \<Rightarrow> ?Inv w'"
      using loop(4)
    proof (rule copyDir_range_rule)
      show "?Inv w1"
        by (simp add: changes_refl)
    next
      fix pre fd post wi r1 w2
      assume split: "fds = pre @ fd # post" and inv: "?Inv wi"
        and entry: "copy_entry (copyDir fuel) wi src dst fd = Some (r1, w2)"
      from inv have ci: "changes w1 wi ?D"
        by simp
      have wfi: "wf_world wi" and cwdi: "cwd wi = cwd w"
        using ci wf1 cwd1 by (simp_all add: changes_wf changes_cwd)
      from split have mem: "fd \<in> set (dir_entries w1 ?S)"
        unfolding fds by simp
      with wf1 have name: "valid_name (Name fd)"
        by (rule dir_entries_valid_name)
      from mem obtain n where child: "lookup w1 (?S @ [Name fd]) = Some n"
        by (auto simp: dir_entries_mem)
      have srci: "lookup wi (?S @ x) = lookup w1 (?S @ x)" for x
        using ci ap by (rule apart_stable)
      have "changes wi w2 (resolve (cwd wi) dst @ [Name fd])"
        using entry
      proof (rule copy_entry_changes)
        show "changes wi w'' (resolve (cwd wi) d)" if "copyDir fuel wi s d = Some (r', w'')" for s d r' w''
          using that wfi by (rule copyDir_changes)
      qed (use dst name in auto)
      then have step: "changes wi w2 (?D @ [Name fd])"
        by (simp add: cwdi)
      have below: "lookup w2 (?D @ c # x) = lookup wi (?D @ c # x)" if "lookup w1 (?S @ c # x) = None" for c x
      proof (cases "c = Name fd")
        case False
        show ?thesis
          using step
        proof (rule changes_same)
          show "\<not> prefix (?D @ [Name fd]) (?D @ c # x)"
            using False by simp
          show "\<not> prefix (?D @ c # x) (?D @ [Name fd]) \<or> lookup wi (?D @ c # x) \<noteq> None"
            using False by simp
        qed
      next
        case True
        from entry src dst name show ?thesis
        proof (cases rule: copy_entry_cases)
          case (is_dir sp dp)
          have "lookup w2 (resolve (cwd wi) dp @ x) = lookup wi (resolve (cwd wi) dp @ x)"
            using is_dir(2) wfi
          proof (rule Suc.IH)
            show "apart (resolve (cwd wi) sp) (resolve (cwd wi) dp)"
              using is_dir(3,4) ap by (simp add: cwdi apart_snoc)
            show "lookup wi (resolve (cwd wi) sp @ x) = None"
              using is_dir(3) that True by (simp add: cwdi srci)
          qed
          with is_dir(4) True show ?thesis
            by (simp add: cwdi)
        next
          case (is_file sp dp)
          from that True child have "x \<noteq> []"
            by auto
          with is_file(4) True have "?D @ c # x \<noteq> resolve (cwd wi) dp"
            by (simp add: cwdi)
          with is_file(2) show ?thesis
            by (rule copyFile_frame)
        qed
      qed
      have "lookup w2 (?D @ rel) = lookup w1 (?D @ rel)" if "lookup w1 (?S @ rel) = None" for rel
      proof (cases rel)
        case Nil
        with that ioutil_ReadDir_ok [OF loop(3)] show ?thesis
          by (auto simp: cwd1 is_dir_iff)
      next
        case (Cons c x)
        with that inv below [of c x] show ?thesis
          by simp
      qed
      moreover have "changes w1 w2 ?D"
        using ci step by (rule changes_trans) auto
      ultimately have "?Inv w2"
        by simp
      then show "case r1 of None \<Rightarrow> ?Inv w2 | Some e \<Rightarrow> ?Inv w2"
        by (cases r1) simp_all
    qed
    then have "?Inv w'"
      by (cases r) simp_all
    with absent have "lookup w' (?D @ rel) = lookup w1 (?D @ rel)"
      by (simp add: src1)
    with mkdir_only [OF loop(1,2)] show ?thesis
      by simp
  qed
qed


lemma copyDir_umask: "copyDir fuel w src dst = Some (r, w') \<Longrightarrow> wf_world w \<Longrightarrow> umask w' = umask w"
  by (auto dest: copyDir_changes changes_umask)

lemma dir_entries_Name_iff:
  "c \<in> Name ` set (dir_entries w p) \<longleftrightarrow> lookup w (p @ [c]) \<noteq> None"
  using set_entry_names [of w p] Name_dir_entries [of w p]
  by (metis (mono_tags, lifting) list.set_map mem_Collect_eq)

lemma split_Name_fresh:
  assumes "dir_entries w p = pre @ fd # post"
  shows "Name fd \<notin> Name ` set pre"
proof -
  have "distinct (map Name (pre @ fd # post))"
    using distinct_Name_dir_entries [of w p] assms by simp
  then show ?thesis
    by auto
qed

lemma copyDir_copied:
  "copyDir fuel w src dst = Some (None, w') \<Longrightarrow> wf_world w \<Longrightarrow>
   apart (resolve (cwd w) src) (resolve (cwd w) dst) \<Longrightarrow>
   lookup w (resolve (cwd w) src @ rel) = Some n \<Longrightarrow>
   map_option carried (lookup w' (resolve (cwd w) dst @ rel)) = Some (carried n)"
proof (induction fuel arbitrary: w src dst w' rel n)
  case 0
  then show ?case by simp
next
  case (Suc fuel)
  let ?S = "resolve (cwd w) src" and ?D = "resolve (cwd w) dst" and ?u = "umask w"
  note wf = Suc.prems(2) and ap = Suc.prems(3) and present = Suc.prems(4)
  from Suc.prems(1) show ?case
  proof (cases rule: copyDir_Suc_cases)
    case (loop info w1 fds)
    note c1 = os_MkdirAll_changes [OF loop(2)]
    have wf1: "wf_world w1" and cwd1: "cwd w1 = cwd w" and umask1: "umask w1 = umask w"
      using c1 wf by (simp_all add: changes_wf changes_cwd changes_umask)
    from os_Stat_ok [OF loop(1)] obtain n0 where src: "src \<noteq> []"
      and n0: "lookup w ?S = Some n0" "Mode info = node_mode n0"
      by auto
    note mk = os_MkdirAll_ok [OF loop(2)]
    from mk have dst: "dst \<noteq> []"
      by simp
    from ioutil_ReadDir_ok [OF loop(3)] have fds: "fds = dir_entries w1 ?S"
      and S1: "is_dir (lookup w1 ?S)"
      by (simp_all add: cwd1)
    have src1: "lookup w1 (?S @ x) = lookup w (?S @ x)" for x
      using c1 ap by (rule apart_stable)
    from S1 src1 [of "[]"] n0 obtain mS where mS: "n0 = Dir mS" "Mode info = mS"
      by (auto simp: is_dir_iff)
    have below1: "lookup w1 (?D @ c # x) = lookup w (?D @ c # x)" for c x
    proof (rule ccontr)
      assume "lookup w1 (?D @ c # x) \<noteq> lookup w (?D @ c # x)"
      from mk(3) [OF this] show False
        by (auto dest: prefix_length_le)
    qed
    have D1: "map_option carried (lookup w1 ?D) = Some (carried (Dir mS))"
      using mk(2) by (auto simp: is_dir_iff)
    let ?Inv = "\<lambda>pre wi. changes w1 wi ?D \<and> lookup wi ?D = lookup w1 ?D
        \<and> (\<forall>c x. c \<notin> Name ` set pre \<longrightarrow> lookup wi (?D @ c # x) = lookup w1 (?D @ c # x))
        \<and> (\<forall>c x n. c \<in> Name ` set pre \<longrightarrow> lookup w1 (?S @ c # x) = Some n \<longrightarrow>
              map_option carried (lookup wi (?D @ c # x)) = Some (carried n))"
    have "case None of None \<Rightarrow> ?Inv fds w' | Some (e :: error) \<Rightarrow> True"
      using loop(4)
    proof (rule copyDir_range_rule)
      show "?Inv [] w1"
        by (simp add: changes_refl)
    next
      fix pre fd post wi r1 w2
      assume split: "fds = pre @ fd # post" and inv: "?Inv pre wi"
        and entry: "copy_entry (copyDir fuel) wi src dst fd = Some (r1, w2)"
      show "case r1 of None \<Rightarrow> ?Inv (pre @ [fd]) w2 | Some e \<Rightarrow> True"
      proof (cases r1)
        case (Some e)
        then show ?thesis by simp
      next
        case None
        from inv have ci: "changes w1 wi ?D"
          by simp
        have wfi: "wf_world wi" and cwdi: "cwd wi = cwd w" and umaski: "umask wi = umask w"
          using ci wf1 cwd1 umask1 by (simp_all add: changes_wf changes_cwd changes_umask)
        from split have mem: "fd \<in> set (dir_entries w1 ?S)"
          unfolding fds by simp
        with wf1 have name: "valid_name (Name fd)"
          by (rule dir_entries_valid_name)
        from mem obtain nfd where child: "lookup w1 (?S @ [Name fd]) = Some nfd"
          "IsDir fd = node_is_dir nfd"
          by (auto simp: dir_entries_mem) (metis IsDir_file_info)
        from split have fresh: "Name fd \<notin> Name ` set pre"
          unfolding fds by (metis split_Name_fresh)
        have srci: "lookup wi (?S @ x) = lookup w1 (?S @ x)" for x
          using ci ap by (rule apart_stable)
        have "changes wi w2 (resolve (cwd wi) dst @ [Name fd])"
          using entry
        proof (rule copy_entry_changes)
          show "changes wi w'' (resolve (cwd wi) d)" if "copyDir fuel wi s d = Some (r', w'')" for s d r' w''
            using that wfi by (rule copyDir_changes)
        qed (use dst name in auto)
        then have step: "changes wi w2 (?D @ [Name fd])"
          by (simp add: cwdi)
        have other: "lookup w2 (?D @ c # x) = lookup wi (?D @ c # x)" if "c \<noteq> Name fd" for c x
          using step
        proof (rule changes_same)
          show "\<not> prefix (?D @ [Name fd]) (?D @ c # x)"
            using that by simp
          show "\<not> prefix (?D @ c # x) (?D @ [Name fd]) \<or> lookup wi (?D @ c # x) \<noteq> None"
            using that by simp
        qed
        have this_one: "map_option carried (lookup w2 (?D @ Name fd # x)) = Some (carried n)"
          if "lookup w1 (?S @ Name fd # x) = Some n" for x n
          using entry [unfolded None] src dst name
        proof (cases rule: copy_entry_cases)
          case (is_dir sp dp)
          have "map_option carried (lookup w2 (resolve (cwd wi) dp @ x)) = Some (carried n)"
            using is_dir(2) wfi
          proof (rule Suc.IH)
            show "apart (resolve (cwd wi) sp) (resolve (cwd wi) dp)"
              using is_dir(3,4) ap by (simp add: cwdi apart_snoc)
            show "lookup wi (resolve (cwd wi) sp @ x) = Some n"
              using is_dir(3) that by (simp add: cwdi srci)
          qed
          with is_dir(4) show ?thesis
            by (simp add: cwdi)
        next
          case (is_file sp dp)
          from is_file(1) child obtain m b where nfd: "nfd = File m b"
            by (cases nfd) auto
          have "x = []"
          proof (rule ccontr)
            assume "x \<noteq> []"
            with that wf_world_prefix [of w1 "?S @ [Name fd]" x] wf1
            have "is_dir (lookup w1 (?S @ [Name fd]))"
              by simp
            with child nfd show False
              by simp
          qed
          have "resolve (cwd wi) sp \<noteq> resolve (cwd wi) dp"
            using is_file(3,4) ap by (auto simp: cwdi apart_def)
          from copyFile_ok [OF is_file(2) this] is_file(3,4) child nfd that \<open>x = []\<close>
          show ?thesis
            by (auto simp: cwdi srci)
        qed
        have "lookup w2 ?D = lookup wi ?D"
          using step
        proof (rule changes_same)
          show "\<not> prefix (?D @ [Name fd]) ?D"
            by (auto dest: prefix_length_le)
          show "\<not> prefix ?D (?D @ [Name fd]) \<or> lookup wi ?D \<noteq> None"
            using inv mk(2) by (auto simp: is_dir_iff)
        qed
        moreover have "changes w1 w2 ?D"
          using ci step by (rule changes_trans) auto
        moreover have "lookup w2 (?D @ c # x) = lookup w1 (?D @ c # x)"
          if "c \<notin> Name ` set (pre @ [fd])" for c x
          using that inv other [of c x] by simp
        moreover have "map_option carried (lookup w2 (?D @ c # x)) = Some (carried n)"
          if "c \<in> Name ` set (pre @ [fd])" "lookup w1 (?S @ c # x) = Some n" for c x n
        proof (cases "c = Name fd")
          case True
          with that(2) this_one show ?thesis
            by simp
        next
          case False
          with that inv other [of c x] show ?thesis
            by simp
        qed
        ultimately have "?Inv (pre @ [fd]) w2"
          using inv by (intro conjI allI impI) simp_all
        with None show ?thesis
          by simp
      qed
    qed
    then have inv: "?Inv fds w'"
      by simp
    show ?thesis
    proof (cases rel)
      case Nil
      with present n0 mS have "n = Dir mS"
        by simp
      with Nil inv D1 show ?thesis
        by simp
    next
      case (Cons c x)
      have "lookup w (?S @ [c]) \<noteq> None"
      proof (cases "x = []")
        case True
        with present Cons show ?thesis by simp
      next
        case False
        with present Cons wf_world_prefix [of w "?S @ [c]" x] wf show ?thesis
          by (auto simp: is_dir_iff)
      qed
      then have "c \<in> Name ` set fds"
        unfolding fds dir_entries_Name_iff by (simp add: src1)
      with inv present Cons have "map_option carried (lookup w' (?D @ c # x)) = Some (carried n)"
        by (simp add: src1)
      with Cons show ?thesis
        by simp
    qed
  qed simp_all
qed


lemma carried_File: "carried z = File m b \<longleftrightarrow> z = File m b"
  by (cases z) auto

lemma carried_Dir: "carried z = Dir m \<longleftrightarrow> node_is_dir z \<and> m = 0"
  by (cases z) auto

lemma copy_entry_dir:
  "IsDir fd \<Longrightarrow>
   copy_entry rec w src dst fd = rec w (path_Join [src, Name fd]) (path_Join [dst, Name fd])"
  by (simp add: copy_entry_def Let_def)

lemma copy_entry_file:
  "\<not> IsDir fd \<Longrightarrow>
   copy_entry rec w src dst fd
     = Some (copyFile w (path_Join [src, Name fd]) (path_Join [dst, Name fd]))"
  by (simp add: copy_entry_def Let_def)

lemma wf_world_above:
  assumes "wf_world w" "is_dir (lookup w D)" "prefix q D"
  shows "is_dir (lookup w q)"
proof -
  from assms(3) obtain x where D: "D = q @ x"
    by (auto simp: prefix_def)
  show ?thesis
  proof (cases "x = []")
    case True
    with assms(2) D show ?thesis by simp
  next
    case False
    with assms(1,2) D show ?thesis
      by (intro wf_world_prefix [of w q x]) (auto simp: is_dir_iff)
  qed
qed

lemma copyDir_succeeds:
  "wf_world w \<Longrightarrow> src \<noteq> [] \<Longrightarrow> dst \<noteq> [] \<Longrightarrow>
   is_dir (lookup w (resolve (cwd w) src)) \<Longrightarrow>
   apart (resolve (cwd w) src) (resolve (cwd w) dst) \<Longrightarrow>
   \<forall>q. prefix q (resolve (cwd w) dst) \<longrightarrow> \<not> is_file (lookup w q) \<Longrightarrow>
   \<forall>x. (is_dir (lookup w (resolve (cwd w) src @ x)) \<longrightarrow> \<not> is_file (lookup w (resolve (cwd w) dst @ x)))
     \<and> (is_file (lookup w (resolve (cwd w) src @ x)) \<longrightarrow> \<not> is_dir (lookup w (resolve (cwd w) dst @ x))) \<Longrightarrow>
   \<forall>x. lookup w (resolve (cwd w) src @ x) \<noteq> None \<longrightarrow> length x < fuel \<Longrightarrow>
   \<exists>w'. copyDir fuel w src dst = Some (None, w')"
proof (induction fuel arbitrary: w src dst)
  case 0
  then show ?case
    by (auto simp: is_dir_iff dest: spec [of _ "[]"])
next
  case (Suc fuel)
  let ?S = "resolve (cwd w) src" and ?D = "resolve (cwd w) dst"
  note wf = Suc.prems(1) and src = Suc.prems(2) and dst = Suc.prems(3) and S = Suc.prems(4)
    and ap = Suc.prems(5) and above = Suc.prems(6) and compat = Suc.prems(7) and depth = Suc.prems(8)
  from S src obtain info where stat: "os_Stat w src = Inr info"
    by (auto simp: os_Stat_def is_dir_iff)
  from os_MkdirAll_succeeds [OF wf dst above] obtain w1
    where mkd: "os_MkdirAll w dst (Mode info) = (None, w1)"
    by blast
  note c1 = os_MkdirAll_changes [OF mkd]
  have wf1: "wf_world w1" and cwd1: "cwd w1 = cwd w"
    using c1 wf by (simp_all add: changes_wf changes_cwd)
  note mk = os_MkdirAll_ok [OF mkd]
  have src1: "lookup w1 (?S @ x) = lookup w (?S @ x)" for x
    using c1 ap by (rule apart_stable)
  have below1: "lookup w1 (?D @ c # x) = lookup w (?D @ c # x)" for c x
  proof (rule ccontr)
    assume "lookup w1 (?D @ c # x) \<noteq> lookup w (?D @ c # x)"
    from mk(3) [OF this] show False
      by (auto dest: prefix_length_le)
  qed
  from S src1 [of "[]"] src have rd: "ioutil_ReadDir w1 src = Inr (dir_entries w1 ?S)"
    by (simp add: ioutil_ReadDir_def cwd1)
  let ?fds = "dir_entries w1 ?S"
  let ?Inv = "\<lambda>pre wi. changes w1 wi ?D
      \<and> (\<forall>c x. c \<notin> Name ` set pre \<longrightarrow> lookup wi (?D @ c # x) = lookup w1 (?D @ c # x))"
  have "\<exists>w'. copyDir_range (copyDir fuel) w1 src dst ?fds = Some (None, w') \<and> ?Inv ?fds w'"
  proof (rule copyDir_range_succeeds)
    show "?Inv [] w1"
      by (simp add: changes_refl)
  next
    fix pre fd post wi
    assume split: "?fds = pre @ fd # post" and inv: "?Inv pre wi"
    from inv have ci: "changes w1 wi ?D"
      by simp
    have wfi: "wf_world wi" and cwdi: "cwd wi = cwd w"
      using ci wf1 cwd1 by (simp_all add: changes_wf changes_cwd)
    from split have mem: "fd \<in> set ?fds"
      by simp
    with wf1 have name: "valid_name (Name fd)"
      by (rule dir_entries_valid_name)
    from mem obtain nfd where child: "lookup w1 (?S @ [Name fd]) = Some nfd"
      "IsDir fd = node_is_dir nfd"
      by (auto simp: dir_entries_mem) (metis IsDir_file_info)
    from split have fresh: "Name fd \<notin> Name ` set pre"
      by (rule split_Name_fresh)
    have srci: "lookup wi (?S @ x) = lookup w (?S @ x)" for x
      using apart_stable [OF ci ap] src1 by simp
    have dsti: "lookup wi (?D @ Name fd # x) = lookup w (?D @ Name fd # x)" for x
      using inv fresh below1 by simp
    have Di: "is_dir (lookup wi ?D)"
      using ci mk(2) by (rule changes_is_dir)
    let ?sp = "path_Join [src, Name fd]" and ?dp = "path_Join [dst, Name fd]"
    have sp: "resolve (cwd wi) ?sp = ?S @ [Name fd]" and dp: "resolve (cwd wi) ?dp = ?D @ [Name fd]"
      using src dst name by (simp_all add: cwdi resolve_entry)
    have nonempty: "?sp \<noteq> []" "?dp \<noteq> []"
      using src dst by (simp_all add: path_Join_not_Nil)
    have "\<exists>w2. copy_entry (copyDir fuel) wi src dst fd = Some (None, w2)"
    proof (cases "IsDir fd")
      case True
      with child obtain m where nfd: "nfd = Dir m"
        by (cases nfd) auto
      have "\<exists>w2. copyDir fuel wi ?sp ?dp = Some (None, w2)"
        using wfi nonempty
      proof (rule Suc.IH)
        show "is_dir (lookup wi (resolve (cwd wi) ?sp))"
          using child nfd by (simp add: sp srci src1 [symmetric])
        show "apart (resolve (cwd wi) ?sp) (resolve (cwd wi) ?dp)"
          using ap by (simp add: sp dp apart_snoc)
        show "\<forall>q. prefix q (resolve (cwd wi) ?dp) \<longrightarrow> \<not> is_file (lookup wi q)"
        proof (intro allI impI)
          fix q
          assume "prefix q (resolve (cwd wi) ?dp)"
          then consider "q = ?D @ [Name fd]" | "prefix q ?D"
            by (auto simp: dp prefix_snoc)
          then show "\<not> is_file (lookup wi q)"
          proof cases
            case 1
            from compat child nfd have "\<not> is_file (lookup w (?D @ [Name fd]))"
              using src1 [of "[Name fd]"] by (auto simp: is_dir_iff)
            with 1 dsti [of "[]"] show ?thesis
              by simp
          next
            case 2
            with wfi Di have "is_dir (lookup wi q)"
              by (rule wf_world_above)
            then show ?thesis
              by (auto simp: is_dir_iff)
          qed
        qed
        show "\<forall>x. (is_dir (lookup wi (resolve (cwd wi) ?sp @ x)) \<longrightarrow>
                    \<not> is_file (lookup wi (resolve (cwd wi) ?dp @ x)))
                \<and> (is_file (lookup wi (resolve (cwd wi) ?sp @ x)) \<longrightarrow>
                    \<not> is_dir (lookup wi (resolve (cwd wi) ?dp @ x)))"
          using compat by (simp add: sp dp srci dsti)
        show "\<forall>x. lookup wi (resolve (cwd wi) ?sp @ x) \<noteq> None \<longrightarrow> length x < fuel"
        proof (intro allI impI)
          fix x
          assume "lookup wi (resolve (cwd wi) ?sp @ x) \<noteq> None"
          then have "lookup w (?S @ Name fd # x) \<noteq> None"
            by (simp add: sp srci)
          with depth have "length (Name fd # x) < Suc fuel"
            by blast
          then show "length x < fuel"
            by simp
        qed
      qed
      with True show ?thesis
        by (simp add: copy_entry_dir)
    next
      case False
      with child obtain m b where nfd: "nfd = File m b"
        by (cases nfd) auto
      have "\<exists>w2. copyFile wi ?sp ?dp = (None, w2)"
      proof (rule copyFile_succeeds)
        show "lookup wi (resolve (cwd wi) ?sp) = Some (File m b)"
          using child nfd by (simp add: sp srci src1 [symmetric])
        show "resolve (cwd wi) ?sp \<noteq> resolve (cwd wi) ?dp"
          using ap by (auto simp: sp dp apart_def)
        show "?sp \<noteq> []" "?dp \<noteq> []"
          by (rule nonempty)+
        from compat child nfd have "\<not> is_dir (lookup w (?D @ [Name fd]))"
          using src1 [of "[Name fd]"] by (auto simp: is_file_iff)
        then show "\<not> is_dir (lookup wi (resolve (cwd wi) ?dp))"
          using dsti [of "[]"] by (simp add: dp)
        show "resolve (cwd wi) ?dp \<noteq> [] \<and> is_dir (lookup wi (butlast (resolve (cwd wi) ?dp)))"
          using Di by (simp add: dp)
      qed
      with False show ?thesis
        by (simp add: copy_entry_file)
    qed
    then obtain w2 where entry: "copy_entry (copyDir fuel) wi src dst fd = Some (None, w2)"
      by blast
    have "changes wi w2 (resolve (cwd wi) dst @ [Name fd])"
      using entry
    proof (rule copy_entry_changes)
      show "changes wi w'' (resolve (cwd wi) d)" if "copyDir fuel wi s d = Some (r', w'')" for s d r' w''
        using that wfi by (rule copyDir_changes)
    qed (use dst name in auto)
    then have step: "changes wi w2 (?D @ [Name fd])"
      by (simp add: cwdi)
    have "lookup w2 (?D @ c # x) = lookup w1 (?D @ c # x)" if "c \<notin> Name ` set (pre @ [fd])" for c x
    proof -
      have "lookup w2 (?D @ c # x) = lookup wi (?D @ c # x)"
        using step
      proof (rule changes_same)
        show "\<not> prefix (?D @ [Name fd]) (?D @ c # x)"
          using that by auto
        show "\<not> prefix (?D @ c # x) (?D @ [Name fd]) \<or> lookup wi (?D @ c # x) \<noteq> None"
          using that by auto
      qed
      with that inv show ?thesis
        by simp
    qed
    moreover have "changes w1 w2 ?D"
      using ci step by (rule changes_trans) auto
    ultimately have "?Inv (pre @ [fd]) w2"
      by blast
    with entry show "\<exists>w2. copy_entry (copyDir fuel) wi src dst fd = Some (None, w2) \<and> ?Inv (pre @ [fd]) w2"
      by blast
  qed
  with stat mkd rd show ?case
    by auto
qed

lemma copyDir_range_returns:
  assumes init: "Inv w"
    and step: "\<And>fd w1. fd \<in> set fds \<Longrightarrow> Inv w1 \<Longrightarrow>
      \<exists>r1 w2. copy_entry rec w1 src dst fd = Some (r1, w2) \<and> (r1 = None \<longrightarrow> Inv w2)"
  shows "\<exists>r w'. copyDir_range rec w src dst fds = Some (r, w')"
  using assms
proof (induction fds arbitrary: w)
  case Nil
  then show ?case by simp
next
  case (Cons fd fds)
  from Cons.prems(2) [of fd w] Cons.prems(1) obtain r1 w2
    where entry: "copy_entry rec w src dst fd = Some (r1, w2)" and inv: "r1 = None \<longrightarrow> Inv w2"
    by auto
  show ?case
  proof (cases r1)
    case None
    with inv have "Inv w2"
      by simp
    then have "\<exists>r w'. copyDir_range rec w2 src dst fds = Some (r, w')"
    proof (rule Cons.IH)
      show "\<exists>r1 w2. copy_entry rec w1 src dst fd' = Some (r1, w2) \<and> (r1 = None \<longrightarrow> Inv w2)"
        if "fd' \<in> set fds" "Inv w1" for fd' w1
        using Cons.prems(2) [of fd' w1] that by simp
    qed
    with entry None show ?thesis
      by simp
  next
    case (Some err)
    with entry show ?thesis
      by simp
  qed
qed

lemma copyDir_returns:
  "wf_world w \<Longrightarrow> 0 < fuel \<Longrightarrow>
   apart (resolve (cwd w) src) (resolve (cwd w) dst) \<Longrightarrow>
   \<forall>x. lookup w (resolve (cwd w) src @ x) \<noteq> None \<longrightarrow> length x < fuel \<Longrightarrow>
   \<exists>r w'. copyDir fuel w src dst = Some (r, w')"
proof (induction fuel arbitrary: w src dst)
  case 0
  then show ?case by simp
next
  case (Suc fuel)
  let ?S = "resolve (cwd w) src" and ?D = "resolve (cwd w) dst"
  note wf = Suc.prems(1) and ap = Suc.prems(3) and depth = Suc.prems(4)
  show ?case
  proof (cases "os_Stat w src")
    case (Inl err)
    then show ?thesis by simp
  next
    case (Inr info)
    obtain r1 w1 where mkd: "os_MkdirAll w dst (Mode info) = (r1, w1)"
      by (cases "os_MkdirAll w dst (Mode info)")
    show ?thesis
    proof (cases r1)
      case (Some err)
      with Inr mkd show ?thesis by simp
    next
      case None
      note mkd = mkd [unfolded None]
      note c1 = os_MkdirAll_changes [OF mkd]
      have wf1: "wf_world w1" and cwd1: "cwd w1 = cwd w"
        using c1 wf by (simp_all add: changes_wf changes_cwd)
      from os_Stat_ok [OF Inr] have src: "src \<noteq> []"
        by simp
      from os_MkdirAll_ok(1) [OF mkd] have dst: "dst \<noteq> []" .
      have src1: "lookup w1 (?S @ x) = lookup w (?S @ x)" for x
        using c1 ap by (rule apart_stable)
      show ?thesis
      proof (cases "ioutil_ReadDir w1 src")
        case (Inl err)
        with Inr mkd show ?thesis by simp
      next
        case rd: (Inr fds)
        from ioutil_ReadDir_ok [OF rd] have fds: "fds = dir_entries w1 ?S"
          by (simp add: cwd1)
        have "\<exists>r w'. copyDir_range (copyDir fuel) w1 src dst fds = Some (r, w')"
        proof (rule copyDir_range_returns [where Inv = "\<lambda>wi. changes w1 wi ?D"])
          show "changes w1 w1 ?D"
            by (rule changes_refl)
        next
          fix fd wi
          assume mem: "fd \<in> set fds" and ci: "changes w1 wi ?D"
          have wfi: "wf_world wi" and cwdi: "cwd wi = cwd w"
            using ci wf1 cwd1 by (simp_all add: changes_wf changes_cwd)
          from mem wf1 have name: "valid_name (Name fd)"
            unfolding fds by (auto intro: dir_entries_valid_name)
          from mem obtain nfd where child: "lookup w1 (?S @ [Name fd]) = Some nfd"
            unfolding fds by (auto simp: dir_entries_mem)
          have srci: "lookup wi (?S @ x) = lookup w (?S @ x)" for x
            using apart_stable [OF ci ap] src1 by simp
          let ?sp = "path_Join [src, Name fd]" and ?dp = "path_Join [dst, Name fd]"
          have sp: "resolve (cwd wi) ?sp = ?S @ [Name fd]" and dp: "resolve (cwd wi) ?dp = ?D @ [Name fd]"
            using src dst name by (simp_all add: cwdi resolve_entry)
          have "\<exists>r1 w2. copy_entry (copyDir fuel) wi src dst fd = Some (r1, w2)"
          proof (cases "IsDir fd")
            case True
            from child have "lookup w (?S @ [Name fd]) \<noteq> None"
              by (simp add: src1)
            with depth have "length [Name fd] < Suc fuel"
              by blast
            then have pos: "0 < fuel"
              by simp
            have "\<exists>r w'. copyDir fuel wi ?sp ?dp = Some (r, w')"
              using wfi pos
            proof (rule Suc.IH)
              show "apart (resolve (cwd wi) ?sp) (resolve (cwd wi) ?dp)"
                using ap by (simp add: sp dp apart_snoc)
              show "\<forall>x. lookup wi (resolve (cwd wi) ?sp @ x) \<noteq> None \<longrightarrow> length x < fuel"
              proof (intro allI impI)
                fix x
                assume "lookup wi (resolve (cwd wi) ?sp @ x) \<noteq> None"
                then have "lookup w (?S @ Name fd # x) \<noteq> None"
                  by (simp add: sp srci)
                with depth have "length (Name fd # x) < Suc fuel"
                  by blast
                then show "length x < fuel"
                  by simp
              qed
            qed
            with True show ?thesis
              by (simp add: copy_entry_dir)
          next
            case False
            then show ?thesis
              by (cases "copyFile wi ?sp ?dp") (simp add: copy_entry_file)
          qed
          then obtain r1 w2 where entry: "copy_entry (copyDir fuel) wi src dst fd = Some (r1, w2)"
            by blast
          have "changes wi w2 (resolve (cwd wi) dst @ [Name fd])"
            using entry
          proof (rule copy_entry_changes)
            show "changes wi w'' (resolve (cwd wi) d)" if "copyDir fuel wi s d = Some (r', w'')" for s d r' w''
              using that wfi by (rule copyDir_changes)
          qed (use dst name in auto)
          then have "changes wi w2 (?D @ [Name fd])"
            by (simp add: cwdi)
          with ci have "changes w1 w2 ?D"
            by (rule changes_trans) auto
          with entry show "\<exists>r1 w2. copy_entry (copyDir fuel) wi src dst fd = Some (r1, w2)
              \<and> (r1 = None \<longrightarrow> changes w1 w2 ?D)"
            by blast
        qed
        with Inr mkd rd show ?thesis
          by simp
      qed
    qed
  qed
qed

lemma copyFile_onto_dir:
  assumes "copyFile w src dst = (r, w')" "is_dir (lookup w (resolve (cwd w) dst))"
  shows "r \<noteq> None" "lookup w' q = lookup w q"
  using assms
  by (auto simp: copyFile_def os_Create_def Let_def is_dir_iff
      split: sum.splits prod.splits option.splits if_splits node.splits)


lemma copyDir_kept:
  "copyDir fuel w src dst = Some (r, w') \<Longrightarrow> wf_world w \<Longrightarrow>
   apart (resolve (cwd w) src) (resolve (cwd w) dst) \<Longrightarrow>
   keeps (lookup w (resolve (cwd w) src @ rel)) (lookup w (resolve (cwd w) dst @ rel)) \<Longrightarrow>
   lookup w' (resolve (cwd w) dst @ rel) = lookup w (resolve (cwd w) dst @ rel)"
proof (induction fuel arbitrary: w src dst r w' rel)
  case 0
  then show ?case by simp
next
  case (Suc fuel)
  let ?S = "resolve (cwd w) src" and ?D = "resolve (cwd w) dst"
  note wf = Suc.prems(2) and ap = Suc.prems(3) and keep = Suc.prems(4)
  have mkdir_only: "lookup w1 (?D @ x) = lookup w (?D @ x)"
    if "os_Stat w src = Inr info" "os_MkdirAll w dst (Mode info) = (r1, w1)"
      "keeps (lookup w (?S @ x)) (lookup w (?D @ x))" for info r1 w1 x
  proof (rule ccontr)
    assume "lookup w1 (?D @ x) \<noteq> lookup w (?D @ x)"
    from os_MkdirAll_frame [OF that(2) this] have "x = []" "lookup w ?D = None"
      by (auto dest: prefix_length_le)
    with that(3) os_Stat_ok [OF that(1)] show False
      by (auto simp: keeps_def)
  qed
  from Suc.prems(1) show ?case
  proof (cases rule: copyDir_Suc_cases)
    case (stat_failed e)
    then show ?thesis by simp
  next
    case (mkdir_failed info e)
    then show ?thesis using keep by (simp add: mkdir_only)
  next
    case (readdir_failed info w1 e)
    then show ?thesis using keep by (simp add: mkdir_only)
  next
    case (loop info w1 fds)
    note c1 = os_MkdirAll_changes [OF loop(2)]
    have wf1: "wf_world w1" and cwd1: "cwd w1 = cwd w"
      using c1 wf by (simp_all add: changes_wf changes_cwd)
    from os_Stat_ok [OF loop(1)] have src: "src \<noteq> []"
      by simp
    note mk = os_MkdirAll_ok [OF loop(2)]
    from mk have dst: "dst \<noteq> []"
      by simp
    from ioutil_ReadDir_ok [OF loop(3)] have fds: "fds = dir_entries w1 ?S"
      by (simp add: cwd1)
    have src1: "lookup w1 (?S @ x) = lookup w (?S @ x)" for x
      using c1 ap by (rule apart_stable)
    let ?Inv = "\<lambda>wi. changes w1 wi ?D
        \<and> (\<forall>rel. keeps (lookup w1 (?S @ rel)) (lookup w1 (?D @ rel)) \<longrightarrow>
              lookup wi (?D @ rel) = lookup w1 (?D @ rel))"
    have "case r of None \<Rightarrow> (\<lambda>pre. ?Inv) fds w' | Some e \<Rightarrow> ?Inv w'"
      using loop(4)
    proof (rule copyDir_range_rule)
      show "?Inv w1"
        by (simp add: changes_refl)
    next
      fix pre fd post wi r1 w2
      assume split: "fds = pre @ fd # post" and inv: "?Inv wi"
        and entry: "copy_entry (copyDir fuel) wi src dst fd = Some (r1, w2)"
      from inv have ci: "changes w1 wi ?D"
        by simp
      have wfi: "wf_world wi" and cwdi: "cwd wi = cwd w"
        using ci wf1 cwd1 by (simp_all add: changes_wf changes_cwd)
      from split have mem: "fd \<in> set (dir_entries w1 ?S)"
        unfolding fds by simp
      with wf1 have name: "valid_name (Name fd)"
        by (rule dir_entries_valid_name)
      from mem obtain n where child: "lookup w1 (?S @ [Name fd]) = Some n"
        "IsDir fd = node_is_dir n"
        by (auto simp: dir_entries_mem) (metis IsDir_file_info)
      have srci: "lookup wi (?S @ x) = lookup w1 (?S @ x)" for x
        using ci ap by (rule apart_stable)
      have "changes wi w2 (resolve (cwd wi) dst @ [Name fd])"
        using entry
      proof (rule copy_entry_changes)
        show "changes wi w'' (resolve (cwd wi) d)" if "copyDir fuel wi s d = Some (r', w'')" for s d r' w''
          using that wfi by (rule copyDir_changes)
      qed (use dst name in auto)
      then have step: "changes wi w2 (?D @ [Name fd])"
        by (simp add: cwdi)
      have below: "lookup w2 (?D @ c # x) = lookup wi (?D @ c # x)"
        if k: "keeps (lookup w1 (?S @ c # x)) (lookup w1 (?D @ c # x))" for c x
      proof (cases "c = Name fd")
        case False
        show ?thesis
          using step
        proof (rule changes_same)
          show "\<not> prefix (?D @ [Name fd]) (?D @ c # x)"
            using False by simp
          show "\<not> prefix (?D @ c # x) (?D @ [Name fd]) \<or> lookup wi (?D @ c # x) \<noteq> None"
            using False by simp
        qed
      next
        case True
        from inv k have same: "lookup wi (?D @ c # x) = lookup w1 (?D @ c # x)"
          by simp
        from entry src dst name show ?thesis
        proof (cases rule: copy_entry_cases)
          case (is_dir sp dp)
          have "lookup w2 (resolve (cwd wi) dp @ x) = lookup wi (resolve (cwd wi) dp @ x)"
            using is_dir(2) wfi
          proof (rule Suc.IH)
            show "apart (resolve (cwd wi) sp) (resolve (cwd wi) dp)"
              using is_dir(3,4) ap by (simp add: cwdi apart_snoc)
            show "keeps (lookup wi (resolve (cwd wi) sp @ x)) (lookup wi (resolve (cwd wi) dp @ x))"
              using is_dir(3,4) k True same by (simp add: cwdi srci)
          qed
          with is_dir(4) True show ?thesis
            by (simp add: cwdi)
        next
          case (is_file sp dp)
          from is_file(1) child obtain m b where n: "n = File m b"
            by (cases n) auto
          show ?thesis
          proof (cases "x = []")
            case False
            with is_file(4) True have "?D @ c # x \<noteq> resolve (cwd wi) dp"
              by (simp add: cwdi)
            with is_file(2) show ?thesis
              by (rule copyFile_frame)
          next
            case x: True
            with k True child n have "is_dir (lookup w1 (?D @ [Name fd]))"
              by (auto simp: keeps_def)
            with same True x have "is_dir (lookup wi (resolve (cwd wi) dp))"
              using is_file(4) by (simp add: cwdi)
            from copyFile_onto_dir(2) [OF is_file(2) this] show ?thesis .
          qed
        qed
      qed
      have "lookup w2 (?D @ rel) = lookup w1 (?D @ rel)"
        if k: "keeps (lookup w1 (?S @ rel)) (lookup w1 (?D @ rel))" for rel
      proof (cases rel)
        case Nil
        have "lookup w2 ?D = lookup wi ?D"
          using step
        proof (rule changes_same)
          show "\<not> prefix (?D @ [Name fd]) ?D"
            by (auto dest: prefix_length_le)
          have "is_dir (lookup wi ?D)"
            using ci mk(2) by (rule changes_is_dir)
          then show "\<not> prefix ?D (?D @ [Name fd]) \<or> lookup wi ?D \<noteq> None"
            by (auto simp: is_dir_iff)
        qed
        moreover from inv have "keeps (lookup w1 (?S @ [])) (lookup w1 (?D @ [])) \<longrightarrow>
            lookup wi (?D @ []) = lookup w1 (?D @ [])"
          by blast
        ultimately show ?thesis
          using k Nil by simp
      next
        case (Cons c x)
        from inv have "keeps (lookup w1 (?S @ c # x)) (lookup w1 (?D @ c # x)) \<longrightarrow>
            lookup wi (?D @ c # x) = lookup w1 (?D @ c # x)"
          by blast
        with k Cons below [of c x] show ?thesis
          by simp
      qed
      moreover have "changes w1 w2 ?D"
        using ci step by (rule changes_trans) auto
      ultimately have "?Inv w2"
        by simp
      then show "case r1 of None \<Rightarrow> ?Inv w2 | Some e \<Rightarrow> ?Inv w2"
        by (cases r1) simp_all
    qed
    then have inv: "?Inv w'"
      by (cases r) simp_all
    from mkdir_only [OF loop(1,2) keep] have same1: "lookup w1 (?D @ rel) = lookup w (?D @ rel)" .
    with keep have "keeps (lookup w1 (?S @ rel)) (lookup w1 (?D @ rel))"
      by (simp add: src1)
    with inv have "lookup w' (?D @ rel) = lookup w1 (?D @ rel)"
      by simp
    with same1 show ?thesis
      by simp
  qed
qed


lemma lookup_eq_None_keys: "lookup w q = None \<longleftrightarrow> q \<notin> set (map fst (files w))"
  using lookup_Some_iff_key [of w q] by blast

lemma visits_append: "visits wd (es @ es') = visits wd es @ visits wd es'"
  by (induction wd es rule: visits.induct) auto

lemma entry_names_cong:
  assumes "\<And>c. lookup w' (p @ [c]) = lookup w (p @ [c])"
  shows "entry_names w' p = entry_names w p"
proof (rule sorted_distinct_set_unique)
  show "sorted (entry_names w' p)" "sorted (entry_names w p)"
    by (simp_all add: entry_names_def)
  show "distinct (entry_names w' p)" "distinct (entry_names w p)"
    by (rule distinct_entry_names)+
  show "set (entry_names w' p) = set (entry_names w p)"
    by (simp add: set_entry_names assms)
qed

lemma dir_entries_cong:
  assumes "\<And>c. lookup w' (p @ [c]) = lookup w (p @ [c])"
  shows "dir_entries w' p = dir_entries w p"
  unfolding dir_entries_def by (simp add: entry_names_cong [OF assms] assms)

lemma walk_cong:
  "(\<And>x. lookup w' (p @ x) = lookup w (p @ x)) \<Longrightarrow> walk n w' p = walk n w p"
proof (induction n arbitrary: p)
  case 0
  then show ?case by simp
next
  case (Suc n)
  have "dir_entries w' p = dir_entries w p"
    by (rule dir_entries_cong) (rule Suc.prems)
  moreover have "walk n w' (p @ [c]) = walk n w (p @ [c])" for c
    using Suc.prems [of "c # x" for x] by (intro Suc.IH) simp
  ultimately show ?case
    by (simp cong: if_cong)
qed

lemma walk_prefix: "q \<in> set (walk n w p) \<Longrightarrow> prefix p q"
proof (induction n arbitrary: p q)
  case 0
  then show ?case by simp
next
  case (Suc n)
  from Suc.prems consider "q = p"
    | fd where "fd \<in> set (dir_entries w p)" "IsDir fd" "q \<in> set (walk n w (p @ [Name fd]))"
    | fd where "fd \<in> set (dir_entries w p)" "q = p @ [Name fd]"
    by (auto split: if_splits)
  then show ?case
  proof cases
    case 2
    from Suc.IH [OF 2(3)] show ?thesis
      by (rule append_prefixD)
  qed simp_all
qed

lemma copyFile_trace:
  assumes "copyFile w src dst = (None, w')"
  shows "visits wd (drop (length (trace w)) (trace w')) = [resolve wd dst]
       \<and> take (length (trace w)) (trace w') = trace w"
proof -
  from assms obtain srcfd where op: "os_Open w src = Inr srcfd"
    by (cases "os_Open w src") (auto simp: copyFile_def)
  obtain r1 w1 where create: "os_Create w dst = (r1, w1)"
    by (cases "os_Create w dst")
  with assms op obtain dstfd where r1: "r1 = Inr dstfd"
    by (cases r1) (auto simp: copyFile_def)
  from create r1 have t1: "trace w1 = trace w @ [Create dst]"
    by (cases rule: os_Create_cases) auto
  obtain r2 w2 where copy: "io_Copy w1 dst dstfd srcfd = (r2, w2)"
    by (cases "io_Copy w1 dst dstfd srcfd")
  with assms op create r1 have r2: "r2 = None"
    by (cases r2) (auto simp: copyFile_def)
  from copy r2 obtain b where t2: "trace w2 = trace w1 @ [Write dst b]"
    by (cases rule: io_Copy_cases) auto
  from assms op create r1 copy r2 obtain info where st: "os_Stat w2 src = Inr info"
    by (cases "os_Stat w2 src") (auto simp: copyFile_def)
  with assms op create r1 copy r2 have "os_Chmod w2 dst (Mode info) = (None, w')"
    by (simp add: copyFile_def)
  then have "trace w' = trace w2 @ [Chmod dst (Mode info)]"
    by (cases rule: os_Chmod_cases) auto
  with t1 t2 show ?thesis
    by simp
qed


lemma copyFile_trace_ex:
  assumes "copyFile w src dst = (None, w')"
  shows "\<exists>evs. trace w' = trace w @ evs \<and> visits wd evs = [resolve wd dst]"
proof -
  from copyFile_trace [OF assms, of wd]
  have "trace w' = trace w @ drop (length (trace w)) (trace w')"
    by (metis append_take_drop_id)
  with copyFile_trace [OF assms, of wd] show ?thesis
    by blast
qed

lemma copyDir_trace:
  "copyDir fuel w src dst = Some (None, w') \<Longrightarrow> wf_world w \<Longrightarrow>
   apart (resolve (cwd w) src) (resolve (cwd w) dst) \<Longrightarrow>
   \<exists>evs. trace w' = trace w @ evs
     \<and> visits (cwd w) evs
         = map (\<lambda>q. resolve (cwd w) dst @ drop (length (resolve (cwd w) src)) q)
             (walk fuel w (resolve (cwd w) src))"
proof (induction fuel arbitrary: w src dst w')
  case 0
  then show ?case by simp
next
  case (Suc fuel)
  let ?S = "resolve (cwd w) src" and ?D = "resolve (cwd w) dst" and ?wd = "cwd w"
  let ?to = "\<lambda>q. ?D @ drop (length ?S) q"
  let ?sub = "\<lambda>fd. if IsDir fd then walk fuel w (?S @ [Name fd]) else [?S @ [Name fd]]"
  note wf = Suc.prems(2) and ap = Suc.prems(3)
  from Suc.prems(1) show ?case
  proof (cases rule: copyDir_Suc_cases)
    case (loop info w1 fds)
    note c1 = os_MkdirAll_changes [OF loop(2)]
    have wf1: "wf_world w1" and cwd1: "cwd w1 = cwd w"
      using c1 wf by (simp_all add: changes_wf changes_cwd)
    from os_Stat_ok [OF loop(1)] have src: "src \<noteq> []"
      by simp
    from os_MkdirAll_ok [OF loop(2)] have dst: "dst \<noteq> []"
      by simp
    have src1: "lookup w1 (?S @ x) = lookup w (?S @ x)" for x
      using c1 ap by (rule apart_stable)
    from ioutil_ReadDir_ok [OF loop(3)] have "fds = dir_entries w1 ?S"
      by (simp add: cwd1)
    also have "\<dots> = dir_entries w ?S"
      by (rule dir_entries_cong) (rule src1)
    finally have fds: "fds = dir_entries w ?S" .
    let ?Inv = "\<lambda>pre wi. changes w1 wi ?D
        \<and> (\<exists>evs. trace wi = trace w1 @ evs
              \<and> visits ?wd evs = concat (map (\<lambda>fd. map ?to (?sub fd)) pre))"
    have "case None of None \<Rightarrow> ?Inv fds w' | Some (e :: error) \<Rightarrow> True"
      using loop(4)
    proof (rule copyDir_range_rule)
      show "?Inv [] w1"
        by (simp add: changes_refl)
    next
      fix pre fd post wi r1 w2
      assume split: "fds = pre @ fd # post" and inv: "?Inv pre wi"
        and entry: "copy_entry (copyDir fuel) wi src dst fd = Some (r1, w2)"
      show "case r1 of None \<Rightarrow> ?Inv (pre @ [fd]) w2 | Some e \<Rightarrow> True"
      proof (cases r1)
        case (Some e)
        then show ?thesis by simp
      next
        case None
        from inv have ci: "changes w1 wi ?D"
          by simp
        from inv obtain evs where evs: "trace wi = trace w1 @ evs"
          "visits ?wd evs = concat (map (\<lambda>fd. map ?to (?sub fd)) pre)"
          by blast
        have wfi: "wf_world wi" and cwdi: "cwd wi = cwd w"
          using ci wf1 cwd1 by (simp_all add: changes_wf changes_cwd)
        from split have mem: "fd \<in> set (dir_entries w ?S)"
          unfolding fds by simp
        with wf have name: "valid_name (Name fd)"
          by (rule dir_entries_valid_name)
        have srci: "lookup wi (?S @ x) = lookup w (?S @ x)" for x
          using apart_stable [OF ci ap] src1 by simp
        have "changes wi w2 (resolve (cwd wi) dst @ [Name fd])"
          using entry
        proof (rule copy_entry_changes)
          show "changes wi w'' (resolve (cwd wi) d)" if "copyDir fuel wi s d = Some (r', w'')" for s d r' w''
            using that wfi by (rule copyDir_changes)
        qed (use dst name in auto)
        then have step: "changes wi w2 (?D @ [Name fd])"
          by (simp add: cwdi)
        have "\<exists>evs2. trace w2 = trace wi @ evs2 \<and> visits ?wd evs2 = map ?to (?sub fd)"
          using entry [unfolded None] src dst name
        proof (cases rule: copy_entry_cases)
          case (is_dir sp dp)
          have "\<exists>evs. trace w2 = trace wi @ evs
              \<and> visits (cwd wi) evs
                  = map (\<lambda>q. resolve (cwd wi) dp @ drop (length (resolve (cwd wi) sp)) q)
                      (walk fuel wi (resolve (cwd wi) sp))"
            using is_dir(2) wfi
          proof (rule Suc.IH)
            show "apart (resolve (cwd wi) sp) (resolve (cwd wi) dp)"
              using is_dir(3,4) ap by (simp add: cwdi apart_snoc)
          qed
          then obtain evs2 where evs2: "trace w2 = trace wi @ evs2"
            "visits ?wd evs2
              = map (\<lambda>q. (?D @ [Name fd]) @ drop (length (?S @ [Name fd])) q)
                  (walk fuel wi (?S @ [Name fd]))"
            using is_dir(3,4) by (auto simp: cwdi)
          have "walk fuel wi (?S @ [Name fd]) = walk fuel w (?S @ [Name fd])"
            by (rule walk_cong) (simp add: srci)
          moreover have "(?D @ [Name fd]) @ drop (length (?S @ [Name fd])) q = ?to q"
            if "q \<in> set (walk fuel w (?S @ [Name fd]))" for q
          proof -
            from walk_prefix [OF that] obtain y where "q = ?S @ Name fd # y"
              by (auto simp: prefix_def)
            then show ?thesis
              by simp
          qed
          ultimately have "visits ?wd evs2 = map ?to (walk fuel w (?S @ [Name fd]))"
            using evs2(2) by (simp cong: map_cong)
          with evs2(1) is_dir(1) show ?thesis
            by auto
        next
          case (is_file sp dp)
          from copyFile_trace_ex [OF is_file(2), of ?wd] is_file(1,4) show ?thesis
            by (auto simp: cwdi)
        qed
        then obtain evs2 where "trace w2 = trace wi @ evs2" "visits ?wd evs2 = map ?to (?sub fd)"
          by blast
        with evs have "trace w2 = trace w1 @ (evs @ evs2)
            \<and> visits ?wd (evs @ evs2) = concat (map (\<lambda>fd. map ?to (?sub fd)) (pre @ [fd]))"
          by (simp add: visits_append)
        then have "\<exists>evs. trace w2 = trace w1 @ evs
            \<and> visits ?wd evs = concat (map (\<lambda>fd. map ?to (?sub fd)) (pre @ [fd]))"
          by blast
        moreover have "changes w1 w2 ?D"
          using ci step by (rule changes_trans) auto
        ultimately show ?thesis
          using None by simp
      qed
    qed
    then obtain evs where evs: "trace w' = trace w1 @ evs"
      "visits ?wd evs = concat (map (\<lambda>fd. map ?to (?sub fd)) fds)"
      by auto
    from os_MkdirAll_trace [OF loop(2)] evs(1)
    have "trace w' = trace w @ (MkdirAll dst (Mode info) # evs)"
      by simp
    moreover have "visits ?wd (MkdirAll dst (Mode info) # evs) = map ?to (walk (Suc fuel) w ?S)"
      using evs(2) by (simp add: fds map_concat comp_def)
    ultimately show ?thesis
      by blast
  qed simp_all
qed

section \<open>Facts about the run\<close>

lemma fetches_append: "fetches (es @ es') = fetches es @ fetches es'"
  by (induction es rule: fetches.induct) auto

lemma runCommand_trace:
  assumes "runCommand cfg e log name args w = (r, w')"
  shows "fetches (trace w') = fetches (trace w) @ [(name, args)]"
    and "cwd w' = cwd w" and "umask w' = umask w"
  using assms
  by (auto simp: runCommand_def Let_def fetches_append emit_def split: prod.splits option.splits if_splits)

lemma copy_logs_append: "copy_logs (es @ es') = copy_logs es @ copy_logs es'"
  by (induction es rule: copy_logs.induct) auto

lemma removals_append: "removals (es @ es') = removals es @ removals es'"
  by (induction es rule: removals.induct) auto

lemma copy_events_silent:
  "list_all copy_event evs \<Longrightarrow> fetches evs = [] \<and> copy_logs evs = [] \<and> removals evs = []"
  by (induction evs) (auto elim: copy_event.elims)

lemma extends_refl: "extends w w"
  by (simp add: extends_def)

lemma extends_trans: "extends w w1 \<Longrightarrow> extends w1 w2 \<Longrightarrow> extends w w2"
  by (auto simp: extends_def)

lemma extends_cwd: "extends w w' \<Longrightarrow> cwd w' = cwd w"
  by (simp add: extends_def)

lemma extends_silent:
  assumes "extends w w'"
  shows "fetches (trace w') = fetches (trace w)" "copy_logs (trace w') = copy_logs (trace w)"
    "removals (trace w') = removals (trace w)"
  using assms copy_events_silent
  by (auto simp: extends_def fetches_append copy_logs_append removals_append)

lemma extends_put_emit: "copy_event e \<Longrightarrow> extends w (put p n (emit e w))"
  by (simp add: extends_def)

lemma extends_emit: "copy_event e \<Longrightarrow> extends w (emit e w)"
  by (simp add: extends_def)

lemma os_MkdirAll_extends:
  assumes "os_MkdirAll w name perm = (r, w')"
  shows "extends w w'"
  using os_MkdirAll_trace [OF assms] changes_cwd [OF os_MkdirAll_changes [OF assms]]
  by (simp add: extends_def)

lemma copyFile_extends:
  assumes "copyFile w src dst = (r, w')"
  shows "extends w w'"
proof (cases "os_Open w src")
  case (Inl e)
  with assms show ?thesis
    by (simp add: copyFile_def extends_refl)
next
  case (Inr srcfd)
  obtain r1 w1 where create: "os_Create w dst = (r1, w1)"
    by (cases "os_Create w dst")
  then have e1: "extends w w1"
    by (cases rule: os_Create_cases) (simp_all add: extends_put_emit extends_emit)
  show ?thesis
  proof (cases r1)
    case (Inl e)
    with assms Inr create e1 show ?thesis
      by (simp add: copyFile_def)
  next
    case dstfd: (Inr dstfd)
    obtain r2 w2 where copy: "io_Copy w1 dst dstfd srcfd = (r2, w2)"
      by (cases "io_Copy w1 dst dstfd srcfd")
    then have "extends w1 w2"
      by (cases rule: io_Copy_cases) (simp_all add: extends_put_emit extends_refl)
    with e1 have e2: "extends w w2"
      by (rule extends_trans)
    show ?thesis
    proof (cases r2)
      case (Some e)
      with assms Inr create dstfd copy e2 show ?thesis
        by (simp add: copyFile_def)
    next
      case None
      show ?thesis
      proof (cases "os_Stat w2 src")
        case (Inl e)
        with assms Inr create dstfd copy None e2 show ?thesis
          by (simp add: copyFile_def)
      next
        case info: (Inr srcinfo)
        with assms Inr create dstfd copy None
        have "os_Chmod w2 dst (Mode srcinfo) = (r, w')"
          by (simp add: copyFile_def)
        then have "extends w2 w'"
          by (cases rule: os_Chmod_cases) (simp_all add: extends_put_emit extends_emit)
        with e2 show ?thesis
          by (rule extends_trans)
      qed
    qed
  qed
qed

lemma copyDir_extends:
  "copyDir fuel w src dst = Some (r, w') \<Longrightarrow> extends w w'"
proof (induction fuel arbitrary: w src dst r w')
  case 0
  then show ?case by simp
next
  case (Suc fuel)
  from Suc.prems show ?case
  proof (cases rule: copyDir_Suc_cases)
    case (stat_failed e)
    then show ?thesis by (simp add: extends_refl)
  next
    case (mkdir_failed info e)
    then show ?thesis by (auto dest: os_MkdirAll_extends)
  next
    case (readdir_failed info w1 e)
    then show ?thesis by (auto dest: os_MkdirAll_extends)
  next
    case (loop info w1 fds)
    have "case r of None \<Rightarrow> (\<lambda>pre. extends w1) fds w' | Some e \<Rightarrow> extends w1 w'"
      using loop(4)
    proof (rule copyDir_range_rule)
      show "extends w1 w1"
        by (rule extends_refl)
    next
      fix pre fd post wi r1 w2
      assume inv: "extends w1 wi"
        and entry: "copy_entry (copyDir fuel) wi src dst fd = Some (r1, w2)"
      have "extends wi w2"
      proof (cases "IsDir fd")
        case True
        with entry show ?thesis
          by (auto simp: copy_entry_dir intro: Suc.IH)
      next
        case False
        with entry show ?thesis
          by (auto simp: copy_entry_file intro: copyFile_extends)
      qed
      with inv have "extends w1 w2"
        by (rule extends_trans)
      then show "case r1 of None \<Rightarrow> extends w1 w2 | Some e \<Rightarrow> extends w1 w2"
        by (cases r1) simp_all
    qed
    then have "extends w1 w'"
      by (cases r) simp_all
    with os_MkdirAll_extends [OF loop(2)] show ?thesis
      by (rule extends_trans)
  qed
qed


lemma visits_emit_log [simp]:
  "visits wd (es @ [LogInfo log msg kvs]) = visits wd es"
  "visits wd (es @ [LogError log err msg]) = visits wd es"
  "visits wd (es @ [Exec name args]) = visits wd es"
  by (simp_all add: visits_append)

lemma runCommand_effect:
  assumes "runCommand cfg e log name args w = (r, w')"
  shows "cwd w' = cwd w" "umask w' = umask w"
    "fetches (trace w') = fetches (trace w) @ [(name, args)]"
    "copy_logs (trace w') = copy_logs (trace w)"
    "removals (trace w') = removals (trace w)"
    "visits wd (trace w') = visits wd (trace w)"
  using assms
  by (auto simp: runCommand_def Let_def fetches_append copy_logs_append removals_append
      visits_append emit_def split: prod.splits option.splits if_splits)

lemma fetchRepository_effect:
  assumes "fetchRepository cfg e log tmpdir url version branchName w = (r, w')"
  shows "cwd w' = cwd w" "umask w' = umask w"
    "fetches (trace w')
      = fetches (trace w) @ [(''git'', [''clone'', ''-b'', branchName, url, filepath_Join [tmpdir, ''repo'', version]])]"
    "copy_logs (trace w') = copy_logs (trace w)"
    "removals (trace w') = removals (trace w)"
    "visits wd (trace w') = visits wd (trace w)"
    "r = Inr (filepath_Join [tmpdir, ''repo'', version]) \<or> (\<exists>err. r = Inl err)"
proof -
  let ?w0 = "emit (LogInfo log ''Fetching repository at revision'' []) w"
  let ?args = "[''clone'', ''-b'', branchName, url, filepath_Join [tmpdir, ''repo'', version]]"
  obtain r1 w1 where cmd: "runCommand cfg e log ''git'' ?args ?w0 = (r1, w1)"
    by (cases "runCommand cfg e log ''git'' ?args ?w0")
  with assms have w': "w' = w1"
    and r: "r = (case r1 of Some err \<Rightarrow> Inl err | None \<Rightarrow> Inr (filepath_Join [tmpdir, ''repo'', version]))"
    by (auto simp: fetchRepository_def Let_def split: option.splits)
  note eff = runCommand_effect [OF cmd]
  show "cwd w' = cwd w" "umask w' = umask w"
    using eff(1,2) by (simp_all add: w')
  show "fetches (trace w')
      = fetches (trace w) @ [(''git'', [''clone'', ''-b'', branchName, url, filepath_Join [tmpdir, ''repo'', version]])]"
    using eff(3) by (simp add: w' fetches_append)
  show "copy_logs (trace w') = copy_logs (trace w)"
    using eff(4) by (simp add: w' copy_logs_append)
  show "removals (trace w') = removals (trace w)"
    using eff(5) by (simp add: w' removals_append)
  show "visits wd (trace w') = visits wd (trace w)"
    using eff(6) [of wd] by (simp add: w')
  show "r = Inr (filepath_Join [tmpdir, ''repo'', version]) \<or> (\<exists>err. r = Inl err)"
    using r by (cases r1) simp_all
qed

lemma run_version_cases:
  assumes "run_version cfg e fuel tmpdir vb w = Some (r, w')"
  obtains
    (fetch_failed) err wx where
      "fetchRepository cfg e (version_logger vb) tmpdir (repoURL cfg) (fst vb) (snd vb)
         (emit (LogInfo (version_logger vb) ''Adding version to list to generate'' []) w) = (Inl err, wx)"
      "r = Some err" "w' = emit (LogError (version_logger vb) err ''Failed to fetch repository'') wx"
  | (copy_failed) loc wx err wy where
      "fetchRepository cfg e (version_logger vb) tmpdir (repoURL cfg) (fst vb) (snd vb)
         (emit (LogInfo (version_logger vb) ''Adding version to list to generate'' []) w) = (Inr loc, wx)"
      "copyDir fuel
         (emit (LogInfo (version_logger vb) ''Copying content to output directory'' [])
            (emit (LogInfo (version_logger vb) ''Fetched repository'' [(''path'', Str loc)]) wx))
         (filepath_Join [loc, repoContentDir cfg]) (filepath_Join [outputDir cfg, fst vb])
       = Some (Some err, wy)"
      "r = Some err"
      "w' = emit (LogError (version_logger vb) err
               ''Failed to copy content from source repository to output directory'') wy"
  | (copied) loc wx where
      "fetchRepository cfg e (version_logger vb) tmpdir (repoURL cfg) (fst vb) (snd vb)
         (emit (LogInfo (version_logger vb) ''Adding version to list to generate'' []) w) = (Inr loc, wx)"
      "copyDir fuel
         (emit (LogInfo (version_logger vb) ''Copying content to output directory'' [])
            (emit (LogInfo (version_logger vb) ''Fetched repository'' [(''path'', Str loc)]) wx))
         (filepath_Join [loc, repoContentDir cfg]) (filepath_Join [outputDir cfg, fst vb])
       = Some (None, w')"
      "r = None"
proof -
  let ?log = "version_logger vb"
  let ?w0 = "emit (LogInfo ?log ''Adding version to list to generate'' []) w"
  obtain fr wx where fetch: "fetchRepository cfg e ?log tmpdir (repoURL cfg) (fst vb) (snd vb) ?w0 = (fr, wx)"
    by (cases "fetchRepository cfg e ?log tmpdir (repoURL cfg) (fst vb) (snd vb) ?w0")
  show ?thesis
  proof (cases fr)
    case (Inl err)
    with assms fetch show ?thesis
      by (intro fetch_failed [of err wx]) (simp_all add: run_version_def Let_def version_logger_def)
  next
    case (Inr loc)
    let ?w3 = "emit (LogInfo ?log ''Copying content to output directory'' [])
        (emit (LogInfo ?log ''Fetched repository'' [(''path'', Str loc)]) wx)"
    let ?c = "copyDir fuel ?w3 (filepath_Join [loc, repoContentDir cfg]) (filepath_Join [outputDir cfg, fst vb])"
    from assms fetch Inr obtain cr wy where copy: "?c = Some (cr, wy)"
      by (cases ?c) (auto simp: run_version_def Let_def version_logger_def)
    show ?thesis
    proof (cases cr)
      case None
      with assms fetch Inr copy show ?thesis
        by (intro copied [of loc wx]) (simp_all add: run_version_def Let_def version_logger_def)
    next
      case (Some err)
      with assms fetch Inr copy show ?thesis
        by (intro copy_failed [of loc wx err wy]) (simp_all add: run_version_def Let_def version_logger_def)
    qed
  qed
qed

lemma copy_logs_emit_other [simp]:
  "msg \<noteq> ''Copying content to output directory'' \<Longrightarrow>
   copy_logs (es @ [LogInfo log msg kvs]) = copy_logs es"
  "copy_logs (es @ [LogError log err msg']) = copy_logs es"
  by (simp_all add: copy_logs_append)

lemma run_version_effect:
  assumes "run_version cfg e fuel tmpdir vb w = Some (r, w')"
  shows "cwd w' = cwd w \<and> fetches (trace w') = fetches (trace w) @ [clone_command cfg tmpdir vb]
      \<and> removals (trace w') = removals (trace w)
      \<and> (r = None \<longrightarrow> copy_logs (trace w') = copy_logs (trace w) @ [version_logger vb])"
  using assms
proof (cases rule: run_version_cases)
  case (fetch_failed err wx)
  note eff = fetchRepository_effect [OF fetch_failed(1)]
  show ?thesis
    using eff(1,3,5) fetch_failed(2,3)
    by (simp add: fetches_append removals_append clone_command_def)
next
  case (copy_failed loc wx err wy)
  note eff = fetchRepository_effect [OF copy_failed(1)]
  note ext = copyDir_extends [OF copy_failed(2)]
  show ?thesis
    using eff(1,3,5) copy_failed(3,4) extends_cwd [OF ext] extends_silent(1,3) [OF ext]
    by (simp add: fetches_append removals_append clone_command_def)
next
  case (copied loc wx)
  note eff = fetchRepository_effect [OF copied(1)]
  note ext = copyDir_extends [OF copied(2)]
  show ?thesis
    using eff(1,3,4,5) extends_cwd [OF ext] extends_silent [OF ext] copied(3)
    by (simp add: fetches_append removals_append copy_logs_append clone_command_def)
qed

lemma run_range_append:
  "run_range cfg e fuel tmpdir (xs @ ys) w =
     (case run_range cfg e fuel tmpdir xs w of
        None \<Rightarrow> None
      | Some (Some err, w1) \<Rightarrow> Some (Some err, w1)
      | Some (None, w1) \<Rightarrow> run_range cfg e fuel tmpdir ys w1)"
  by (induction xs arbitrary: w) (auto split: option.splits prod.splits)

lemma run_range_effect:
  "run_range cfg e fuel tmpdir vbs w = Some (r, w') \<Longrightarrow>
   cwd w' = cwd w \<and> removals (trace w') = removals (trace w)
   \<and> (r = None \<longrightarrow>
        fetches (trace w') = fetches (trace w) @ map (clone_command cfg tmpdir) vbs
        \<and> copy_logs (trace w') = copy_logs (trace w) @ map version_logger vbs)"
proof (induction vbs arbitrary: w)
  case Nil
  then show ?case by simp
next
  case (Cons vb vbs)
  from Cons.prems obtain r1 w1 where v: "run_version cfg e fuel tmpdir vb w = Some (r1, w1)"
    by (cases "run_version cfg e fuel tmpdir vb w") auto
  note eff = run_version_effect [OF v]
  show ?case
  proof (cases r1)
    case (Some err)
    with Cons.prems v eff show ?thesis
      by auto
  next
    case None
    with Cons.prems v have "run_range cfg e fuel tmpdir vbs w1 = Some (r, w')"
      by simp
    from Cons.IH [OF this] eff None show ?thesis
      by simp
  qed
qed


lemma map_of_filter_key:
  "map_of (filter (\<lambda>(q, n). P q) fs) q = (if P q then map_of fs q else None)"
  by (induction fs) auto

lemma suffix_dot_Split:
  assumes "suffix ''/.'' c"
  shows "''.'' \<in> set (strings_Split c (CHR ''/''))"
proof -
  from assms obtain y where "c = y @ CHR ''/'' # ''.''"
    by (auto simp: suffix_def)
  then show ?thesis
    by (simp add: strings_Split_append)
qed

lemma path_Clean_no_dot_suffix: "\<not> suffix ''/.'' (path_Clean p)"
proof
  assume suf: "suffix ''/.'' (path_Clean p)"
  then have dot: "''.'' \<in> set (strings_Split (path_Clean p) (CHR ''/''))"
    by (rule suffix_dot_Split)
  from suf have long: "2 \<le> length (path_Clean p)"
    by (auto simp: suffix_def)
  then have p: "p \<noteq> []"
    by (auto simp: path_Clean_def)
  define rooted where "rooted = (hd p = CHR ''/'')"
  define out where "out = foldl (clean_step rooted) [] (strings_Split p (CHR ''/''))"
  have inv: "clean_inv rooted out"
    unfolding out_def
    by (intro clean_inv_foldl clean_inv_Nil) (auto dest: strings_Split_pieces_no_sep)
  then have nodot: "''.'' \<notin> set out" and slash: "\<forall>e\<in>set out. CHR ''/'' \<notin> set e"
    by (auto simp: clean_inv_def)
  show False
  proof (cases "out = []")
    case True
    with p long show ?thesis
      by (auto simp: path_Clean_def Let_def rooted_def out_def split: if_splits)
  next
    case False
    then have "strings_Split (strings_Join out ''/'') (CHR ''/'') = out"
      using slash by (intro strings_Split_Join) auto
    with p False dot nodot show ?thesis
      by (auto simp: path_Clean_def Let_def rooted_def out_def split: if_splits)
  qed
qed

lemma path_Join_cases: "path_Join es = [] \<or> (\<exists>p. path_Join es = path_Clean p)"
  by (induction es) (auto simp: path_Join.simps)

lemma ioutil_TempDir_ok:
  assumes "ioutil_TempDir e w dir pfx = (Inr name, w0)"
  shows "lookup w (resolve (cwd w) name) = None"
    "w0 = put (resolve (cwd w) name)
            (Dir (mkdir_mode (emit (MkdirTemp name) w) (resolve (cwd w) name) 0x1C0))
            (emit (MkdirTemp name) w)"
    "name = [] \<or> (\<exists>p. name = path_Clean p)"
proof -
  let ?n = "filepath_Join [if dir = [] then tempRoot e else dir, pfx @ random e]"
  let ?w = "emit (MkdirTemp ?n) w"
  obtain ok w1 where mk: "mkdir ?w (resolve (cwd w) ?n) 0x1C0 = (ok, w1)"
    by (cases "mkdir ?w (resolve (cwd w) ?n) 0x1C0")
  with assms have n: "name = ?n" and ok: "ok" and w0: "w0 = w1"
    by (cases ok; simp add: ioutil_TempDir_def Let_def)+
  from mk ok show "lookup w (resolve (cwd w) name) = None"
    by (cases rule: mkdir_cases) (simp_all add: n)
  from mk ok show "w0 = put (resolve (cwd w) name)
      (Dir (mkdir_mode (emit (MkdirTemp name) w) (resolve (cwd w) name) 0x1C0)) (emit (MkdirTemp name) w)"
    by (cases rule: mkdir_cases) (simp_all add: n w0)
  show "name = [] \<or> (\<exists>p. name = path_Clean p)"
    unfolding n filepath_Join_def by (rule path_Join_cases)
qed

lemma tempdir_removable:
  assumes "ioutil_TempDir e w dir pfx = (Inr name, w0)" "wf_world w"
  shows "name \<noteq> [] \<and> name \<noteq> ''.'' \<and> \<not> suffix ''/.'' name"
proof -
  note t = ioutil_TempDir_ok [OF assms(1)]
  from assms(2) have "lookup w (cwd w) \<noteq> None"
    by (auto simp: wf_world_iff is_dir_iff)
  with t(1) have "resolve (cwd w) name \<noteq> cwd w"
    by auto
  then have "name \<noteq> []" "name \<noteq> ''.''"
    by (auto simp: resolve_def resolve_step_def)
  with t(3) path_Clean_no_dot_suffix show ?thesis
    by auto
qed

lemma os_RemoveAll_effect:
  assumes "os_RemoveAll e w name = (r, w1)"
  shows "cwd w1 = cwd w" "umask w1 = umask w" "trace w1 = trace w @ [RemoveAll name]"
    "\<not> prefix (resolve (cwd w) name) q \<Longrightarrow> lookup w1 q = lookup w q"
    "lookup w1 q = None \<or> lookup w1 q = lookup w q"
  using assms
  by (auto simp: os_RemoveAll_def Let_def lookup_def map_of_filter_key emit_def split: if_splits)

lemma os_RemoveAll_result:
  assumes "os_RemoveAll e w name = (r, w1)" "name \<noteq> []" "name \<noteq> ''.''" "\<not> suffix ''/.'' name"
  shows "r = None \<longleftrightarrow> (\<forall>q. prefix (resolve (cwd w) name) q \<and> lookup w q \<noteq> None \<longrightarrow> \<not> stuck e w q)"
    "r = None \<Longrightarrow> prefix (resolve (cwd w) name) q \<Longrightarrow> lookup w1 q = None"
    "r \<noteq> None \<Longrightarrow> r = Some (PathError name)"
    "prefix (resolve (cwd w) name) h \<Longrightarrow> lookup w h \<noteq> None \<Longrightarrow> stuck e w h \<Longrightarrow> prefix q h \<Longrightarrow>
     lookup w1 q = lookup w q"
proof -
  let ?p = "resolve (cwd w) name"
  let ?held = "filter (\<lambda>q. prefix ?p q \<and> stuck e w q) (map fst (files w))"
  have held: "?held = [] \<longleftrightarrow> (\<forall>q. prefix ?p q \<and> lookup w q \<noteq> None \<longrightarrow> \<not> stuck e w q)"
    unfolding lookup_Some_iff_key by (auto simp: filter_empty_conv)
  from assms have r: "r = (if ?held = [] then None else Some (PathError name))"
    and w1: "w1 = (emit (RemoveAll name) w)
        \<lparr>files := filter (\<lambda>(q, n). \<not> prefix ?p q \<or> list_ex (prefix q) ?held) (files w)\<rparr>"
    by (simp_all add: os_RemoveAll_def Let_def emit_def)
  have look: "lookup w1 q = (if \<not> prefix ?p q \<or> list_ex (prefix q) ?held then lookup w q else None)" for q
    unfolding w1 by (simp add: lookup_def map_of_filter_key)
  show "r = None \<longleftrightarrow> (\<forall>q. prefix ?p q \<and> lookup w q \<noteq> None \<longrightarrow> \<not> stuck e w q)"
    using r held by auto
  show "lookup w1 q = None" if "r = None" "prefix ?p q"
  proof -
    from that(1) r have "?held = []"
      by (auto split: if_splits)
    with that(2) look [of q] show ?thesis
      by simp
  qed
  show "r = Some (PathError name)" if "r \<noteq> None"
    using that r by (auto split: if_splits)
  show "lookup w1 q = lookup w q"
    if "prefix ?p h" "lookup w h \<noteq> None" "stuck e w h" "prefix q h"
  proof -
    from that(1-3) have "h \<in> set ?held"
      unfolding lookup_Some_iff_key by simp
    with that(4) have "list_ex (prefix q) ?held"
      unfolding list_ex_iff by blast
    with look [of q] show ?thesis
      by simp
  qed
qed

lemma cleanup_effect:
  "cwd (cleanup cfg e log name w) = cwd w"
  "fetches (trace (cleanup cfg e log name w)) = fetches (trace w)"
  "copy_logs (trace (cleanup cfg e log name w)) = copy_logs (trace w)"
  "visits wd (trace (cleanup cfg e log name w)) = visits wd (trace w)"
  "removals (trace (cleanup cfg e log name w)) = removals (trace w) @ (if debug cfg then [] else [name])"
  "\<not> prefix (resolve (cwd w) name) q \<Longrightarrow> lookup (cleanup cfg e log name w) q = lookup w q"
  "lookup (cleanup cfg e log name w) q = None \<or> lookup (cleanup cfg e log name w) q = lookup w q"
proof -
  obtain r w1 where rm: "os_RemoveAll e w name = (r, w1)"
    by (cases "os_RemoveAll e w name")
  note eff = os_RemoveAll_effect [OF rm]
  let ?log = "log @ [(''directory'', Str name)]"
  have c: "cleanup cfg e log name w =
      (if debug cfg then emit (LogInfo ?log ''Skipping cleaning up temporary directory'' []) w
       else case r of
              Some err \<Rightarrow> emit (LogError ?log err ''Failed to cleanup temporary directory'') w1
            | None \<Rightarrow> emit (LogInfo ?log ''Cleaned up temporary directory'' []) w1)"
    using rm by (simp add: cleanup_def Let_def)
  show "cwd (cleanup cfg e log name w) = cwd w"
    unfolding c using eff(1) by (simp split: option.splits)
  show "fetches (trace (cleanup cfg e log name w)) = fetches (trace w)"
    unfolding c using eff(3) by (simp add: fetches_append split: option.splits)
  show "copy_logs (trace (cleanup cfg e log name w)) = copy_logs (trace w)"
    unfolding c using eff(3) by (simp add: copy_logs_append split: option.splits)
  show "visits wd (trace (cleanup cfg e log name w)) = visits wd (trace w)"
    unfolding c using eff(3) by (simp add: visits_append split: option.splits)
  show "removals (trace (cleanup cfg e log name w)) = removals (trace w) @ (if debug cfg then [] else [name])"
    unfolding c using eff(3) by (simp add: removals_append split: option.splits)
  show "lookup (cleanup cfg e log name w) q = lookup w q" if "\<not> prefix (resolve (cwd w) name) q"
    unfolding c using eff(4) [OF that] by (simp split: option.splits)
  show "lookup (cleanup cfg e log name w) q = None \<or> lookup (cleanup cfg e log name w) q = lookup w q"
    unfolding c using eff(5) [of q] by (simp split: option.splits)
qed

lemma cleanup_skipped:
  assumes "debug cfg"
  shows "files (cleanup cfg e log name w) = files w"
    "trace (cleanup cfg e log name w)
       = trace w @ [LogInfo (log @ [(''directory'', Str name)]) ''Skipping cleaning up temporary directory'' []]"
  using assms by (simp_all add: cleanup_def Let_def emit_def)

lemma cleanup_removed:
  assumes "\<not> debug cfg" "name \<noteq> []" "name \<noteq> ''.''" "\<not> suffix ''/.'' name"
    and "\<forall>q. prefix (resolve (cwd w) name) q \<and> lookup w q \<noteq> None \<longrightarrow> \<not> stuck e w q"
  shows "lookup (cleanup cfg e log name w) q = (if prefix (resolve (cwd w) name) q then None else lookup w q)"
    "trace (cleanup cfg e log name w)
       = trace w @ [RemoveAll name,
           LogInfo (log @ [(''directory'', Str name)]) ''Cleaned up temporary directory'' []]"
proof -
  obtain r w1 where rm: "os_RemoveAll e w name = (r, w1)"
    by (cases "os_RemoveAll e w name")
  from os_RemoveAll_result(1) [OF rm assms(2-4)] assms(5) have r: "r = None"
    by simp
  with rm assms(1) have c: "cleanup cfg e log name w
      = emit (LogInfo (log @ [(''directory'', Str name)]) ''Cleaned up temporary directory'' []) w1"
    by (simp add: cleanup_def Let_def)
  show "lookup (cleanup cfg e log name w) q = (if prefix (resolve (cwd w) name) q then None else lookup w q)"
    using os_RemoveAll_result(2) [OF rm assms(2-4) r, of q] os_RemoveAll_effect(4) [OF rm, of q]
    by (simp add: c)
  show "trace (cleanup cfg e log name w)
       = trace w @ [RemoveAll name,
           LogInfo (log @ [(''directory'', Str name)]) ''Cleaned up temporary directory'' []]"
    using os_RemoveAll_effect(3) [OF rm] by (simp add: c)
qed

lemma cleanup_failed:
  assumes "\<not> debug cfg" "name \<noteq> []" "name \<noteq> ''.''" "\<not> suffix ''/.'' name"
    and "prefix (resolve (cwd w) name) h" "lookup w h \<noteq> None" "stuck e w h"
  shows "prefix q h \<Longrightarrow> lookup (cleanup cfg e log name w) q = lookup w q"
    "trace (cleanup cfg e log name w)
       = trace w @ [RemoveAll name,
           LogError (log @ [(''directory'', Str name)]) (PathError name)
             ''Failed to cleanup temporary directory'']"
proof -
  obtain r w1 where rm: "os_RemoveAll e w name = (r, w1)"
    by (cases "os_RemoveAll e w name")
  from os_RemoveAll_result(1) [OF rm assms(2-4)] assms(5-7) have "r \<noteq> None"
    by blast
  with os_RemoveAll_result(3) [OF rm assms(2-4)] have r: "r = Some (PathError name)"
    by simp
  with rm assms(1) have c: "cleanup cfg e log name w
      = emit (LogError (log @ [(''directory'', Str name)]) (PathError name)
          ''Failed to cleanup temporary directory'') w1"
    by (simp add: cleanup_def Let_def)
  show "lookup (cleanup cfg e log name w) q = lookup w q" if "prefix q h"
    using os_RemoveAll_result(4) [OF rm assms(2-4) assms(5-7) that] by (simp add: c)
  show "trace (cleanup cfg e log name w)
       = trace w @ [RemoveAll name,
           LogError (log @ [(''directory'', Str name)]) (PathError name)
             ''Failed to cleanup temporary directory'']"
    using os_RemoveAll_effect(3) [OF rm] by (simp add: c)
qed

lemma run_created:
  assumes "\<not> (latestBranch cfg = [] \<and> branches cfg = [])"
    "ioutil_TempDir e w [] ''hugo-multiversion-'' = (Inr tmpdir, w0)"
  shows "run cfg e fuel w =
     (case run_deferred cfg e fuel tmpdir w0 of
        None \<Rightarrow> None
      | Some (r, w2) \<Rightarrow> Some (r, cleanup cfg e [] tmpdir w2))"
  using assms by (auto simp: run_def)

lemma run_deferred_effect:
  assumes "run_deferred cfg e fuel tmpdir w = Some (r, w')"
  shows "cwd w' = cwd w \<and> removals (trace w') = removals (trace w)"
proof -
  obtain r1 w1 where mk: "os_MkdirAll w (outputDir cfg) 0x1ED = (r1, w1)"
    by (cases "os_MkdirAll w (outputDir cfg) 0x1ED")
  note ext = os_MkdirAll_extends [OF mk]
  show ?thesis
  proof (cases r1)
    case (Some err)
    with assms mk ext show ?thesis
      by (auto simp: run_deferred_def removals_append dest: extends_cwd extends_silent(3))
  next
    case None
    let ?vbs = "range_pairs (versionMap (branches cfg) (latestBranch cfg)) (rangeOrder e)"
    from assms mk None obtain r2 w2 where loop: "run_range cfg e fuel tmpdir ?vbs w1 = Some (r2, w2)"
      by (cases "run_range cfg e fuel tmpdir ?vbs w1") (auto simp: run_deferred_def)
    from run_range_effect [OF loop] ext have "cwd w2 = cwd w" "removals (trace w2) = removals (trace w)"
      by (auto dest: extends_cwd extends_silent(3))
    with assms mk None loop show ?thesis
      by (cases r2) (auto simp: run_deferred_def removals_append)
  qed
qed

lemma range_pairs_full:
  assumes "set order \<subseteq> dom vm"
  shows "map fst (range_pairs vm order) = order"
    and "\<forall>vb\<in>set (range_pairs vm order). vm (fst vb) = Some (snd vb)"
  using assms by (induction order; auto simp: range_pairs_def)+

lemma apart_siblings: "a \<noteq> b \<Longrightarrow> apart (p @ [a]) (p @ [b])"
  by (simp add: apart_def)

lemma validateFlags_ok:
  "repoURL cfg \<noteq> [] \<Longrightarrow> repoContentDir cfg \<noteq> [] \<Longrightarrow> outputDir cfg \<noteq> [] \<Longrightarrow>
   validateFlags cfg w = (True, w)"
  by (simp add: validateFlags_def notEmpty_def)

lemma wf_world_emit [simp]: "wf_world (emit e w) = wf_world w"
  by (simp add: wf_world_iff)

lemma run_range_steps:
  "run_range cfg e fuel T vbs w1 = Some (None, wn) \<Longrightarrow>
   \<exists>ws. length ws = Suc (length vbs) \<and> ws ! 0 = w1 \<and> last ws = wn
     \<and> (\<forall>i<length vbs. \<exists>wx.
           fetch_step cfg e T (vbs ! i) (ws ! i) = (Inr (filepath_Join [T, ''repo'', fst (vbs ! i)]), wx)
           \<and> copy_step cfg fuel (vbs ! i) (filepath_Join [T, ''repo'', fst (vbs ! i)]) wx
               = Some (None, ws ! Suc i))"
proof (induction vbs arbitrary: w1)
  case Nil
  then show ?case
    by (intro exI [of _ "[w1]"]) simp
next
  case (Cons vb vbs)
  from Cons.prems obtain wa where first: "run_version cfg e fuel T vb w1 = Some (None, wa)"
    and rest: "run_range cfg e fuel T vbs wa = Some (None, wn)"
    by (auto split: option.splits prod.splits)
  from first obtain loc wx where f: "fetch_step cfg e T vb w1 = (Inr loc, wx)"
    and c: "copy_step cfg fuel vb loc wx = Some (None, wa)"
    by (cases rule: run_version_cases) simp_all
  from fetchRepository_effect(7) [OF f] have loc: "loc = filepath_Join [T, ''repo'', fst vb]"
    by auto
  from Cons.IH [OF rest] obtain ws where ws: "length ws = Suc (length vbs)" "ws ! 0 = wa" "last ws = wn"
    and steps: "\<And>i. i < length vbs \<Longrightarrow> \<exists>wx.
           fetch_step cfg e T (vbs ! i) (ws ! i) = (Inr (filepath_Join [T, ''repo'', fst (vbs ! i)]), wx)
           \<and> copy_step cfg fuel (vbs ! i) (filepath_Join [T, ''repo'', fst (vbs ! i)]) wx
               = Some (None, ws ! Suc i)"
    by blast
  from ws(1) have ne: "ws \<noteq> []"
    by auto
  have "\<exists>wx. fetch_step cfg e T ((vb # vbs) ! i) ((w1 # ws) ! i)
          = (Inr (filepath_Join [T, ''repo'', fst ((vb # vbs) ! i)]), wx)
        \<and> copy_step cfg fuel ((vb # vbs) ! i) (filepath_Join [T, ''repo'', fst ((vb # vbs) ! i)]) wx
            = Some (None, (w1 # ws) ! Suc i)"
    if "i < length (vb # vbs)" for i
  proof (cases i)
    case 0
    with f c loc ws(2) show ?thesis
      by auto
  next
    case (Suc j)
    with that have "j < length vbs"
      by simp
    from steps [OF this] Suc show ?thesis
      by simp
  qed
  moreover have "length (w1 # ws) = Suc (length (vb # vbs))" "(w1 # ws) ! 0 = w1" "last (w1 # ws) = wn"
    using ws ne by simp_all
  ultimately show ?case
    by blast
qed


lemma run_range_chain:
  "length ws = Suc (length vbs) \<Longrightarrow>
   \<forall>i<length vbs. \<exists>wx.
     fetch_step cfg e T (vbs ! i) (ws ! i) = (Inr (filepath_Join [T, ''repo'', fst (vbs ! i)]), wx)
     \<and> copy_step cfg fuel (vbs ! i) (filepath_Join [T, ''repo'', fst (vbs ! i)]) wx
         = Some (None, ws ! Suc i) \<Longrightarrow>
   run_range cfg e fuel T vbs (ws ! 0) = Some (None, last ws)"
proof (induction vbs arbitrary: ws)
  case Nil
  then obtain w1 where "ws = [w1]"
    by (cases ws) auto
  then show ?case by simp
next
  case (Cons vb vbs)
  from Cons.prems(1) obtain w1 ws' where ws: "ws = w1 # ws'" and len: "length ws' = Suc (length vbs)"
    by (cases ws) auto
  from len have ne: "ws' \<noteq> []"
    by auto
  from Cons.prems(2) [rule_format, of 0] ws obtain wx
    where f: "fetch_step cfg e T vb w1 = (Inr (filepath_Join [T, ''repo'', fst vb]), wx)"
      and c: "copy_step cfg fuel vb (filepath_Join [T, ''repo'', fst vb]) wx = Some (None, ws' ! 0)"
    by auto
  from f c have first: "run_version cfg e fuel T vb w1 = Some (None, ws' ! 0)"
    by (simp add: run_version_def Let_def version_logger_def)
  have "\<forall>i<length vbs. \<exists>wx.
     fetch_step cfg e T (vbs ! i) (ws' ! i) = (Inr (filepath_Join [T, ''repo'', fst (vbs ! i)]), wx)
     \<and> copy_step cfg fuel (vbs ! i) (filepath_Join [T, ''repo'', fst (vbs ! i)]) wx
         = Some (None, ws' ! Suc i)"
  proof (intro allI impI)
    fix i
    assume "i < length vbs"
    then have "Suc i < length (vb # vbs)"
      by simp
    from Cons.prems(2) [rule_format, OF this] ws show "\<exists>wx.
     fetch_step cfg e T (vbs ! i) (ws' ! i) = (Inr (filepath_Join [T, ''repo'', fst (vbs ! i)]), wx)
     \<and> copy_step cfg fuel (vbs ! i) (filepath_Join [T, ''repo'', fst (vbs ! i)]) wx
         = Some (None, ws' ! Suc i)"
      by simp
  qed
  from Cons.IH [OF len this] first ws ne show ?case
    by simp
qed

lemma stub_git_gone:
  "fst (fetchRepository cfg stub_env log T url v ''gone'' w) = Inl ExitError"
  by (simp add: fetchRepository_def runCommand_def stub_env_def stub_git_def Let_def split: prod.splits)

section \<open>The claims about the version resolver\<close>

text \<open>
  C1. A token that contains \<open>=\<close> is cut at its first \<open>=\<close>: what stands before it is
  the version name, and the branch name is what stands after it with every further
  \<open>=\<close> dropped (the remaining pieces of the split, joined with no separator). The loop
  body writes that entry, and it is the entry of the resolved map wherever the token
  stands in the list, as long as no later token has the same version name (the name of
  a token is the first piece of its split, with or without \<open>=\<close>). In particular \<open>a=b\<close>
  resolves to \<open>a \<mapsto> b\<close> and \<open>a=b=c\<close> to \<open>a \<mapsto> bc\<close>.
\<close>

theorem parseBranchesFlag_token_with_sep:
  assumes "CHR ''='' \<in> set b"
    and "\<forall>c\<in>set cs. hd (strings_Split c (CHR ''='')) \<noteq> hd (strings_Split b (CHR ''=''))"
  shows "(\<exists>rest. b = hd (strings_Split b (CHR ''='')) @ CHR ''='' # rest
            \<and> CHR ''='' \<notin> set (hd (strings_Split b (CHR ''='')))
            \<and> concat (tl (strings_Split b (CHR ''=''))) = filter (\<lambda>c. c \<noteq> CHR ''='') rest)
       \<and> parseBranchesFlag_body out b
           = out(hd (strings_Split b (CHR ''='')) \<mapsto> concat (tl (strings_Split b (CHR ''=''))))
       \<and> parseBranchesFlag (bs @ b # cs) (hd (strings_Split b (CHR ''='')))
           = Some (concat (tl (strings_Split b (CHR ''=''))))
       \<and> parseBranchesFlag [''a=b''] = [''a'' \<mapsto> ''b'']
       \<and> parseBranchesFlag [''a=b=c''] = [''a'' \<mapsto> ''bc'']"
proof -
  let ?name = "takeWhile (\<lambda>c. c \<noteq> CHR ''='') b"
  let ?rest = "tl (dropWhile (\<lambda>c. c \<noteq> CHR ''='') b)"
  have name: "hd (strings_Split b (CHR ''='')) = ?name"
    by (rule strings_Split_hd)
  have branch: "concat (tl (strings_Split b (CHR ''=''))) = filter (\<lambda>c. c \<noteq> CHR ''='') ?rest"
    using assms(1) by (simp add: strings_Split_tl concat_strings_Split)
  from assms(1) have "dropWhile (\<lambda>c. c \<noteq> CHR ''='') b \<noteq> []"
    by simp
  moreover from assms(1) have "hd (dropWhile (\<lambda>c. c \<noteq> CHR ''='') b) = CHR ''=''"
    using hd_dropWhile [of "\<lambda>c. c \<noteq> CHR ''=''" b] by simp
  ultimately have "dropWhile (\<lambda>c. c \<noteq> CHR ''='') b = CHR ''='' # ?rest"
    by (cases "dropWhile (\<lambda>c. c \<noteq> CHR ''='') b") auto
  then have cut: "b = ?name @ CHR ''='' # ?rest"
    using takeWhile_dropWhile_id [of "\<lambda>c. c \<noteq> CHR ''=''" b] by simp
  have clean: "CHR ''='' \<notin> set ?name"
    by (auto dest: set_takeWhileD)
  have body: "parseBranchesFlag_body out' b = out'(?name \<mapsto> filter (\<lambda>c. c \<noteq> CHR ''='') ?rest)"
    for out'
    using assms(1) by (rule parseBranchesFlag_body_sep)
  have at: "parseBranchesFlag (bs @ b # cs) ?name = Some (filter (\<lambda>c. c \<noteq> CHR ''='') ?rest)"
    using parseBranchesFlag_at [OF assms(2), of bs] by (simp add: name body)
  have ex1: "parseBranchesFlag [''a=b''] = [''a'' \<mapsto> ''b'']"
    by (simp add: parseBranchesFlag_def parseBranchesFlag_body_def)
  have ex2: "parseBranchesFlag [''a=b=c''] = [''a'' \<mapsto> ''bc'']"
    by (simp add: parseBranchesFlag_def parseBranchesFlag_body_def)
  show ?thesis
    using cut clean body at ex1 ex2
    by (simp only: name branch) auto
qed

theorem parseBranchesFlag_token_with_sep_witness:
  "CHR ''='' \<in> set ''v0.12=release=0.12''
   \<and> hd (strings_Split ''v0.11=release-0.11'' (CHR ''='')) \<noteq> hd (strings_Split ''v0.12=release=0.12'' (CHR ''=''))
   \<and> hd (strings_Split ''master'' (CHR ''='')) \<noteq> hd (strings_Split ''v0.12=release=0.12'' (CHR ''=''))
   \<and> parseBranchesFlag [''v0.12'', ''v0.12=release=0.12'', ''v0.11=release-0.11'', ''master''] ''v0.12''
       = Some ''release0.12''"
  using parseBranchesFlag_token_with_sep [of "''v0.12=release=0.12''" "[''v0.11=release-0.11'', ''master'']"
      Map.empty "[''v0.12'']"]
  by simp

text \<open>
  C5. A token without \<open>=\<close> is entered under its own name: version name and branch name
  are both the whole token, wherever the token stands in the list, as long as no later
  token has that version name. The resolver is a total function that returns a map, so
  no token makes it fail.
\<close>

theorem parseBranchesFlag_token_without_sep:
  assumes "CHR ''='' \<notin> set b"
    and "\<forall>c\<in>set cs. hd (strings_Split c (CHR ''='')) \<noteq> b"
  shows "parseBranchesFlag_body out b = out(b \<mapsto> b)
       \<and> parseBranchesFlag (bs @ b # cs) b = Some b"
  using assms parseBranchesFlag_at [OF assms(2), of bs b]
  by (simp add: parseBranchesFlag_body_no_sep)

theorem parseBranchesFlag_token_without_sep_witness:
  "CHR ''='' \<notin> set ''master''
   \<and> hd (strings_Split ''v0.11=release-0.11'' (CHR ''='')) \<noteq> ''master''
   \<and> parseBranchesFlag [''master=x'', ''master'', ''v0.11=release-0.11''] ''master'' = Some ''master''"
  using parseBranchesFlag_token_without_sep [of "''master''" "[''v0.11=release-0.11'']" Map.empty "[''master=x'']"]
  by simp

text \<open>
  C4. With a non-empty latest-branch value the resolved map sends \<open>latest\<close> to that
  value, whatever the tokens say about \<open>latest\<close>, and agrees with the parsed tokens on
  every other name.
\<close>

theorem versionMap_latest:
  assumes "latest \<noteq> []"
  shows "versionMap tokens latest ''latest'' = Some latest
       \<and> (\<forall>v. v \<noteq> ''latest'' \<longrightarrow> versionMap tokens latest v = parseBranchesFlag tokens v)"
  using assms by (simp add: versionMap_def)

theorem versionMap_latest_witness:
  "''main'' \<noteq> []
   \<and> parseBranchesFlag [''latest=old''] ''latest'' = Some ''old''
   \<and> versionMap [''latest=old''] ''main'' ''latest'' = Some ''main''"
proof -
  have "parseBranchesFlag [''latest=old''] ''latest'' = Some ''old''"
    by (simp add: parseBranchesFlag_def parseBranchesFlag_body_def)
  then show ?thesis
    using versionMap_latest [of "''main''" "[''latest=old'']"] by simp
qed

section \<open>The claims about the recursive copy\<close>

text \<open>
  C3. At the example world, under umask \<open>022\<close>, the copy of \<open>/repo\<close> to \<open>/out/v1\<close> returns
  no error. It makes the directories and files in the order of a depth-first walk in
  pre-order, and a regular file arrives with its bytes and the mode of its source:
  \<open>index.md\<close> has \<open>0666\<close> on both sides, because \<open>copyFile\<close> sets the mode with
  \<^verbatim>\<open>os.Chmod\<close> after \<^verbatim>\<open>os.Create\<close> has made the file with \<open>0644\<close>. A directory that the
  copy creates does not arrive with the mode of its source: \<open>/out/v1\<close> has \<open>0755\<close> where
  \<open>/repo\<close> has \<open>0777\<close>, and \<open>/out/v1/docs\<close> has \<open>0755\<close> where \<open>/repo/docs\<close> has \<open>0775\<close>.
  \<open>copyDir\<close> hands the mode of the source to \<^verbatim>\<open>os.MkdirAll\<close>, the umask is applied to
  it, and nothing sets the mode of the directory afterwards.
\<close>

theorem copyDir_masks_directory_mode:
  "umask site_world = 0x12
   \<and> lookup site_world [''repo''] = Some (Dir 0x1FF)
   \<and> lookup site_world [''out'', ''v1''] = None
   \<and> left_at (copyDir 3 site_world ''/repo'' ''/out/v1'') [''out'', ''v1'']
       = Some (None, Some (Dir 0x1ED))
   \<and> Dir 0x1ED \<noteq> Dir 0x1FF
   \<and> lookup site_world [''repo'', ''docs''] = Some (Dir 0x1FD)
   \<and> left_at (copyDir 3 site_world ''/repo'' ''/out/v1'') [''out'', ''v1'', ''docs'']
       = Some (None, Some (Dir 0x1ED))
   \<and> lookup site_world [''repo'', ''index.md''] = Some (File 0x1B6 ''hello'')
   \<and> left_at (copyDir 3 site_world ''/repo'' ''/out/v1'') [''out'', ''v1'', ''index.md'']
       = Some (None, Some (File 0x1B6 ''hello''))
   \<and> visits [] (trace_after (copyDir 3 site_world ''/repo'' ''/out/v1''))
       = [[''out'', ''v1''], [''out'', ''v1'', ''docs''], [''out'', ''v1'', ''docs'', ''run.sh''],
          [''out'', ''v1'', ''index.md'']]"
  by code_simp





section \<open>The claims about the run\<close>

text \<open>
  C2, as amended. For every version and branch the fetch step runs exactly one command,
  \<^verbatim>\<open>git clone -b <branch> <url> <dir>\<close> with \<open><dir>\<close> the cleaned join of the workspace,
  \<open>repo\<close> and the version. The command is run on the files as they were (before it only
  log lines are written); the step returns \<open><dir>\<close> when the command succeeded and the
  error of the command when it failed, and the files after the step are those that the
  command left. When the version is the name of a directory entry, the directory is
  the one named \<open>repo/<version>\<close> below the workspace. The command line has no other
  option: no shallow and no single-branch clone is asked for.
\<close>

theorem fetchRepository_command:
  assumes "fetchRepository cfg e log tmpdir url version branchName w = (r, w')"
  shows "(\<exists>wq. files wq = files w \<and> cwd wq = cwd w \<and> umask wq = umask w
            \<and> trace wq
                = trace w @ [LogInfo log ''Fetching repository at revision'' []]
                  @ (if debug cfg
                     then [LogInfo (log @ [(''cmd'', Str ''git''),
                             (''args'', Strs [''clone'', ''-b'', branchName, url,
                                filepath_Join [tmpdir, ''repo'', version]])])
                            ''Running command'' []]
                     else [])
                  @ [Exec ''git'' [''clone'', ''-b'', branchName, url, filepath_Join [tmpdir, ''repo'', version]]]
            \<and> r = (case fst (exec e ''git''
                        [''clone'', ''-b'', branchName, url, filepath_Join [tmpdir, ''repo'', version]] wq) of
                      None \<Rightarrow> Inr (filepath_Join [tmpdir, ''repo'', version])
                    | Some err \<Rightarrow> Inl err)
            \<and> files w' = snd (exec e ''git''
                        [''clone'', ''-b'', branchName, url, filepath_Join [tmpdir, ''repo'', version]] wq)
            \<and> cwd w' = cwd w \<and> umask w' = umask w
            \<and> fetches (trace w') = fetches (trace wq))
       \<and> fetches (trace w')
           = fetches (trace w)
             @ [(''git'', [''clone'', ''-b'', branchName, url, filepath_Join [tmpdir, ''repo'', version]])]
       \<and> (valid_name version \<longrightarrow>
            resolve (cwd w) (filepath_Join [tmpdir, ''repo'', version])
              = resolve (cwd w) tmpdir @ [''repo'', version])"
proof -
  let ?args = "[''clone'', ''-b'', branchName, url, filepath_Join [tmpdir, ''repo'', version]]"
  let ?log = "log @ [(''cmd'', Str ''git''), (''args'', Strs ?args)]"
  let ?w0 = "emit (LogInfo log ''Fetching repository at revision'' []) w"
  let ?wa = "if debug cfg then emit (LogInfo ?log ''Running command'' []) ?w0 else ?w0"
  let ?wq = "emit (Exec ''git'' ?args) ?wa"
  obtain res fs where ex: "exec e ''git'' ?args ?wq = (res, fs)"
    by (cases "exec e ''git'' ?args ?wq")
  from assms ex have r: "r = (case res of None \<Rightarrow> Inr (filepath_Join [tmpdir, ''repo'', version]) | Some err \<Rightarrow> Inl err)"
    and w': "w' = (case res of None \<Rightarrow> ?wq\<lparr>files := fs\<rparr>
                   | Some err \<Rightarrow> emit (LogError ?log err ''Error running command'') (?wq\<lparr>files := fs\<rparr>))"
    by (auto simp: fetchRepository_def runCommand_def Let_def split: option.splits)
  have "files ?wq = files w" "cwd ?wq = cwd w" "umask ?wq = umask w"
    by (simp_all add: emit_def)
  moreover have "trace ?wq = trace w @ [LogInfo log ''Fetching repository at revision'' []]
      @ (if debug cfg then [LogInfo ?log ''Running command'' []] else []) @ [Exec ''git'' ?args]"
    by (simp add: emit_def)
  moreover have "r = (case fst (exec e ''git'' ?args ?wq) of
      None \<Rightarrow> Inr (filepath_Join [tmpdir, ''repo'', version]) | Some err \<Rightarrow> Inl err)"
    using r ex by simp
  moreover have "files w' = snd (exec e ''git'' ?args ?wq)" "cwd w' = cwd w" "umask w' = umask w"
    "fetches (trace w') = fetches (trace ?wq)"
    using w' ex by (cases res; simp add: emit_def fetches_append)+
  ultimately have first: "\<exists>wq. files wq = files w \<and> cwd wq = cwd w \<and> umask wq = umask w
      \<and> trace wq = trace w @ [LogInfo log ''Fetching repository at revision'' []]
          @ (if debug cfg then [LogInfo ?log ''Running command'' []] else []) @ [Exec ''git'' ?args]
      \<and> r = (case fst (exec e ''git'' ?args wq) of
          None \<Rightarrow> Inr (filepath_Join [tmpdir, ''repo'', version]) | Some err \<Rightarrow> Inl err)
      \<and> files w' = snd (exec e ''git'' ?args wq) \<and> cwd w' = cwd w \<and> umask w' = umask w
      \<and> fetches (trace w') = fetches (trace wq)"
    by blast
  have "valid_name ''repo''"
    by (simp add: valid_name_def)
  with first fetchRepository_effect(3) [OF assms] show ?thesis
    by (simp add: resolve_filepath_Join3)
qed

text \<open>
  The theorem at the version \<open>v0.12\<close> on the branch \<open>release-0.12\<close> with a command that
  succeeds, and at a branch for which the stand-in for git fails.
\<close>

theorem fetchRepository_command_witness:
  "fst (fetchRepository docs_config idle_env [] ''/tmp/w'' ''https://example.org/docs.git''
       ''v0.12'' ''release-0.12'' empty_world) = Inr ''/tmp/w/repo/v0.12''
   \<and> fetches (trace (snd (fetchRepository docs_config idle_env [] ''/tmp/w'' ''https://example.org/docs.git''
       ''v0.12'' ''release-0.12'' empty_world)))
     = [(''git'', [''clone'', ''-b'', ''release-0.12'', ''https://example.org/docs.git'', ''/tmp/w/repo/v0.12''])]
   \<and> valid_name ''v0.12''
   \<and> resolve (cwd empty_world) ''/tmp/w/repo/v0.12'' = [''tmp'', ''w'', ''repo'', ''v0.12'']
   \<and> fst (fetchRepository gone_config stub_env [] ''/tmp/w'' ''https://example.org/docs.git''
       ''v0.11'' ''gone'' empty_world) = Inl ExitError"
proof -
  have j: "filepath_Join [''/tmp/w'', ''repo'', ''v0.12''] = ''/tmp/w/repo/v0.12''"
    by code_simp
  have t: "fetches (trace empty_world) = []" "valid_name ''v0.12''"
    "resolve (cwd empty_world) ''/tmp/w'' = [''tmp'', ''w'']"
    by code_simp+
  have idle: "fst (exec idle_env name args wq) = None" for name args wq
    by (simp add: idle_env_def idle_exec_def)
  have gone: "fst (exec stub_env name [sub, opt, ''gone'', url, dir] wq) = Some ExitError" for name sub opt url dir wq
    by (simp add: stub_env_def stub_git_def)
  obtain r w' where f: "fetchRepository docs_config idle_env [] ''/tmp/w'' ''https://example.org/docs.git''
       ''v0.12'' ''release-0.12'' empty_world = (r, w')"
    by (cases "fetchRepository docs_config idle_env [] ''/tmp/w'' ''https://example.org/docs.git''
       ''v0.12'' ''release-0.12'' empty_world")
  obtain r2 w2 where g: "fetchRepository gone_config stub_env [] ''/tmp/w'' ''https://example.org/docs.git''
       ''v0.11'' ''gone'' empty_world = (r2, w2)"
    by (cases "fetchRepository gone_config stub_env [] ''/tmp/w'' ''https://example.org/docs.git''
       ''v0.11'' ''gone'' empty_world")
  from fetchRepository_command [OF f] have "r = Inr ''/tmp/w/repo/v0.12''"
    "fetches (trace w') = [(''git'', [''clone'', ''-b'', ''release-0.12'', ''https://example.org/docs.git'', ''/tmp/w/repo/v0.12''])]"
    "resolve (cwd empty_world) ''/tmp/w/repo/v0.12'' = [''tmp'', ''w'', ''repo'', ''v0.12'']"
    by (auto simp: idle j t)
  moreover from fetchRepository_command [OF g] have "r2 = Inl ExitError"
    by (auto simp: gone)
  ultimately show ?thesis
    by (simp add: f g t)
qed

text \<open>
  C2 as it is stated fails: the command that is run for \<open>v0.12\<close> has neither an option
  for a shallow clone nor \<^verbatim>\<open>--single-branch\<close>, so git fetches all branches with their
  full history.
\<close>

theorem fetchRepository_not_shallow:
  "fetches (trace (snd (fetchRepository docs_config idle_env [] ''/tmp/w'' ''https://example.org/docs.git''
       ''v0.12'' ''release-0.12'' empty_world)))
     = [(''git'', [''clone'', ''-b'', ''release-0.12'', ''https://example.org/docs.git'', ''/tmp/w/repo/v0.12''])]
   \<and> \<not> requests_shallow [''clone'', ''-b'', ''release-0.12'', ''https://example.org/docs.git'', ''/tmp/w/repo/v0.12'']
   \<and> \<not> requests_single_branch [''clone'', ''-b'', ''release-0.12'', ''https://example.org/docs.git'', ''/tmp/w/repo/v0.12'']"
  by code_simp

text \<open>
  C10. With an empty latest-branch value and an empty list of branches, \<open>run\<close> returns
  no error at once: all it does is log one line. No file is touched (so neither the
  workspace nor the output directory is made) and no command is run.
\<close>

theorem run_nothing_to_do:
  assumes "latestBranch cfg = []" "branches cfg = []"
  shows "run cfg e fuel w = Some (None, emit (LogInfo [] ''Nothing to do!'' []) w)
       \<and> files (emit (LogInfo [] ''Nothing to do!'' []) w) = files w
       \<and> trace (emit (LogInfo [] ''Nothing to do!'' []) w) = trace w @ [LogInfo [] ''Nothing to do!'' []]"
  using assms by (simp add: run_def emit_def)

text \<open>The theorem at a configuration without branches.\<close>

theorem run_nothing_to_do_witness:
  "latestBranch (docs_config\<lparr>latestBranch := [], branches := []\<rparr>) = []
   \<and> branches (docs_config\<lparr>latestBranch := [], branches := []\<rparr>) = []
   \<and> run (docs_config\<lparr>latestBranch := [], branches := []\<rparr>) idle_env 0 empty_world
       = Some (None, emit (LogInfo [] ''Nothing to do!'' []) empty_world)"
  using run_nothing_to_do [of "docs_config\<lparr>latestBranch := [], branches := []\<rparr>" idle_env 0 empty_world]
  by simp

text \<open>
  C8, as amended. Let the keys of the version map be ranged over once each. A run that
  has something to do returns no error exactly when this chain goes through, and then
  it consists of the chain and nothing else: the workspace is made, then the output
  directory, then for each version in turn one call of \<open>fetchRepository\<close> that returns
  the clone directory (the cleaned join of the workspace, \<open>repo\<close> and the version) and,
  from the world that the fetch left, one call of \<open>copyDir\<close> from the content directory of
  the clone to the directory of the version in the output directory, which returns no
  error and leaves the world in which the next version starts; what \<open>run\<close> returns is
  the \<open>cleanup\<close> of the world that the last copy left. The commands of such a run are
  exactly one clone for each version, in that order. The clone directories of two
  distinct versions lie apart whenever both versions are names of directory entries
  (not empty, no slash, neither \<open>.\<close> nor \<open>..\<close>).
\<close>

theorem run_one_fetch_and_copy_per_version:
  assumes order: "distinct (rangeOrder e)"
      "set (rangeOrder e) = dom (versionMap (branches cfg) (latestBranch cfg))"
  shows "map fst (range_pairs (versionMap (branches cfg) (latestBranch cfg)) (rangeOrder e)) = rangeOrder e
       \<and> (\<forall>vb\<in>set (range_pairs (versionMap (branches cfg) (latestBranch cfg)) (rangeOrder e)).
             versionMap (branches cfg) (latestBranch cfg) (fst vb) = Some (snd vb))
       \<and> (run cfg e fuel w = Some (None, w') \<longrightarrow>
            fetches (trace w')
              = fetches (trace w)
                @ map (clone_command cfg (filepath_Join [tempRoot e, ''hugo-multiversion-'' @ random e]))
                    (range_pairs (versionMap (branches cfg) (latestBranch cfg)) (rangeOrder e))
            \<and> copy_logs (trace w')
              = copy_logs (trace w)
                @ map version_logger
                    (range_pairs (versionMap (branches cfg) (latestBranch cfg)) (rangeOrder e)))
       \<and> (\<not> (latestBranch cfg = [] \<and> branches cfg = []) \<longrightarrow>
            (run cfg e fuel w = Some (None, w')) =
            (\<exists>w0 ws.
               ioutil_TempDir e w [] ''hugo-multiversion-''
                 = (Inr (filepath_Join [tempRoot e, ''hugo-multiversion-'' @ random e]), w0)
               \<and> length ws
                   = Suc (length (range_pairs (versionMap (branches cfg) (latestBranch cfg)) (rangeOrder e)))
               \<and> os_MkdirAll w0 (outputDir cfg) 0x1ED = (None, ws ! 0)
               \<and> (\<forall>i<length (range_pairs (versionMap (branches cfg) (latestBranch cfg)) (rangeOrder e)).
                     \<exists>wx.
                       fetch_step cfg e (filepath_Join [tempRoot e, ''hugo-multiversion-'' @ random e])
                           (range_pairs (versionMap (branches cfg) (latestBranch cfg)) (rangeOrder e) ! i)
                           (ws ! i)
                         = (Inr (filepath_Join
                                   [filepath_Join [tempRoot e, ''hugo-multiversion-'' @ random e], ''repo'',
                                    fst (range_pairs (versionMap (branches cfg) (latestBranch cfg)) (rangeOrder e) ! i)]),
                            wx)
                       \<and> copy_step cfg fuel
                           (range_pairs (versionMap (branches cfg) (latestBranch cfg)) (rangeOrder e) ! i)
                           (filepath_Join
                              [filepath_Join [tempRoot e, ''hugo-multiversion-'' @ random e], ''repo'',
                               fst (range_pairs (versionMap (branches cfg) (latestBranch cfg)) (rangeOrder e) ! i)])
                           wx
                         = Some (None, ws ! Suc i))
               \<and> w' = cleanup cfg e [] (filepath_Join [tempRoot e, ''hugo-multiversion-'' @ random e])
                          (emit (LogInfo [] ''Built content directory'' []) (last ws))))
       \<and> (\<forall>tmpdir v v'. valid_name v \<and> valid_name v' \<and> v \<noteq> v' \<longrightarrow>
             apart (resolve (cwd w) (filepath_Join [tmpdir, ''repo'', v]))
                   (resolve (cwd w) (filepath_Join [tmpdir, ''repo'', v'])))"
proof -
  let ?vm = "versionMap (branches cfg) (latestBranch cfg)"
  let ?vbs = "range_pairs ?vm (rangeOrder e)"
  let ?tmp = "filepath_Join [tempRoot e, ''hugo-multiversion-'' @ random e]"
  let ?chain = "\<lambda>w0 ws. ioutil_TempDir e w [] ''hugo-multiversion-'' = (Inr ?tmp, w0)
      \<and> length ws = Suc (length ?vbs)
      \<and> os_MkdirAll w0 (outputDir cfg) 0x1ED = (None, ws ! 0)
      \<and> (\<forall>i<length ?vbs. \<exists>wx.
            fetch_step cfg e ?tmp (?vbs ! i) (ws ! i)
              = (Inr (filepath_Join [?tmp, ''repo'', fst (?vbs ! i)]), wx)
            \<and> copy_step cfg fuel (?vbs ! i) (filepath_Join [?tmp, ''repo'', fst (?vbs ! i)]) wx
                = Some (None, ws ! Suc i))
      \<and> w' = cleanup cfg e [] ?tmp (emit (LogInfo [] ''Built content directory'' []) (last ws))"
  have "set (rangeOrder e) \<subseteq> dom ?vm"
    using order(2) by simp
  note full = range_pairs_full [OF this]
  have dirs: "apart (resolve (cwd w) (filepath_Join [tmpdir, ''repo'', v]))
      (resolve (cwd w) (filepath_Join [tmpdir, ''repo'', v']))"
    if "valid_name v" "valid_name v'" "v \<noteq> v'" for tmpdir v v'
  proof -
    have "valid_name ''repo''"
      by (simp add: valid_name_def)
    with that show ?thesis
      using apart_siblings [of v v' "resolve (cwd w) tmpdir @ [''repo'']"]
      by (simp add: resolve_filepath_Join3)
  qed
  have traces: "fetches (trace w') = fetches (trace w) @ map (clone_command cfg ?tmp) ?vbs
      \<and> copy_logs (trace w') = copy_logs (trace w) @ map version_logger ?vbs
      \<and> (\<not> (latestBranch cfg = [] \<and> branches cfg = []) \<longrightarrow> (\<exists>w0 ws. ?chain w0 ws))"
    if run: "run cfg e fuel w = Some (None, w')"
  proof (cases "latestBranch cfg = [] \<and> branches cfg = []")
    case True
    then have "?vm = Map.empty"
      by (simp add: versionMap_def parseBranchesFlag_def)
    with order(2) have "?vbs = []"
      by (simp add: range_pairs_def)
    with True run show ?thesis
      by (auto simp: run_def fetches_append copy_logs_append)
  next
    case False
    obtain tr w0 where tmp: "ioutil_TempDir e w [] ''hugo-multiversion-'' = (tr, w0)"
      by (cases "ioutil_TempDir e w [] ''hugo-multiversion-''")
    with run False obtain tmpdir where tr: "tr = Inr tmpdir"
      by (cases tr) (auto simp: run_def)
    from tmp tr have tmpdir: "tmpdir = ?tmp"
      by (auto simp: ioutil_TempDir_def Let_def split: prod.splits bool.splits)
    note t = ioutil_TempDir_ok [OF tmp [unfolded tr]]
    from run run_created [OF False tmp [unfolded tr], of fuel] obtain w2
      where body: "run_deferred cfg e fuel tmpdir w0 = Some (None, w2)"
        and w': "w' = cleanup cfg e [] tmpdir w2"
      by (cases "run_deferred cfg e fuel tmpdir w0") auto
    obtain r1 w1 where mk: "os_MkdirAll w0 (outputDir cfg) 0x1ED = (r1, w1)"
      by (cases "os_MkdirAll w0 (outputDir cfg) 0x1ED")
    with body have r1: "r1 = None"
      by (cases r1) (auto simp: run_deferred_def)
    from body mk r1 obtain w3 where loop: "run_range cfg e fuel tmpdir ?vbs w1 = Some (None, w3)"
      and w2: "w2 = emit (LogInfo [] ''Built content directory'' []) w3"
      by (cases "run_range cfg e fuel tmpdir ?vbs w1")
         (auto simp: run_deferred_def split: option.splits)
    note ext = os_MkdirAll_extends [OF mk]
    from t(2) have "fetches (trace w0) = fetches (trace w)" "copy_logs (trace w0) = copy_logs (trace w)"
      by (simp_all add: fetches_append copy_logs_append)
    with extends_silent(1,2) [OF ext]
    have "fetches (trace w1) = fetches (trace w)" "copy_logs (trace w1) = copy_logs (trace w)"
      by simp_all
    with run_range_effect [OF loop]
    have "fetches (trace w3) = fetches (trace w) @ map (clone_command cfg tmpdir) ?vbs"
      "copy_logs (trace w3) = copy_logs (trace w) @ map version_logger ?vbs"
      by simp_all
    then have tr': "fetches (trace w') = fetches (trace w) @ map (clone_command cfg ?tmp) ?vbs"
      "copy_logs (trace w') = copy_logs (trace w) @ map version_logger ?vbs"
      by (simp_all add: w' w2 cleanup_effect tmpdir fetches_append)
    from run_range_steps [OF loop] obtain ws where ws: "length ws = Suc (length ?vbs)" "ws ! 0 = w1"
      "last ws = w3"
      and steps: "\<forall>i<length ?vbs. \<exists>wx.
            fetch_step cfg e tmpdir (?vbs ! i) (ws ! i)
              = (Inr (filepath_Join [tmpdir, ''repo'', fst (?vbs ! i)]), wx)
            \<and> copy_step cfg fuel (?vbs ! i) (filepath_Join [tmpdir, ''repo'', fst (?vbs ! i)]) wx
                = Some (None, ws ! Suc i)"
      by blast
    have "?chain w0 ws"
      using tmp tr ws mk r1 steps w' w2 unfolding tmpdir by simp
    with tr' show ?thesis
      by blast
  qed
  have forth: "run cfg e fuel w = Some (None, w')"
    if todo: "\<not> (latestBranch cfg = [] \<and> branches cfg = [])" and chain: "?chain w0 ws" for w0 ws
  proof -
    from chain have created: "ioutil_TempDir e w [] ''hugo-multiversion-'' = (Inr ?tmp, w0)"
      and len: "length ws = Suc (length ?vbs)"
      and mk: "os_MkdirAll w0 (outputDir cfg) 0x1ED = (None, ws ! 0)"
      and steps: "\<forall>i<length ?vbs. \<exists>wx.
            fetch_step cfg e ?tmp (?vbs ! i) (ws ! i)
              = (Inr (filepath_Join [?tmp, ''repo'', fst (?vbs ! i)]), wx)
            \<and> copy_step cfg fuel (?vbs ! i) (filepath_Join [?tmp, ''repo'', fst (?vbs ! i)]) wx
                = Some (None, ws ! Suc i)"
      and w': "w' = cleanup cfg e [] ?tmp (emit (LogInfo [] ''Built content directory'' []) (last ws))"
      by blast+
    from run_range_chain [OF len steps] mk
    have "run_deferred cfg e fuel ?tmp w0
        = Some (None, emit (LogInfo [] ''Built content directory'' []) (last ws))"
      by (simp add: run_deferred_def)
    with run_created [OF todo created, of fuel] w' show ?thesis
      by simp
  qed
  have "(run cfg e fuel w = Some (None, w')) = (\<exists>w0 ws. ?chain w0 ws)"
    if "\<not> (latestBranch cfg = [] \<and> branches cfg = [])"
    using that traces forth by blast
  with full traces dirs show ?thesis
    by blast
qed


text \<open>
  C8 as it is stated fails for version names that are not plain names: \<open>v1\<close> and
  \<open>./v1\<close> are two keys of the version map, and \<^verbatim>\<open>filepath.Join\<close> cleans both clone
  directories to the same path. And a run that stops at an error has fetched nothing for
  the versions it did not reach: when the clone for \<open>v0.11\<close> fails first, no command is
  run for \<open>v0.12\<close>.
\<close>

theorem versions_share_workspace_directory:
  "versionMap [''v1=release-1'', ''./v1=release-2''] [] ''v1'' = Some ''release-1''
   \<and> versionMap [''v1=release-1'', ''./v1=release-2''] [] ''./v1'' = Some ''release-2''
   \<and> ''v1'' \<noteq> ''./v1''
   \<and> filepath_Join [''/tmp/w'', ''repo'', ''v1''] = ''/tmp/w/repo/v1''
   \<and> filepath_Join [''/tmp/w'', ''repo'', ''./v1''] = ''/tmp/w/repo/v1''
   \<and> versionMap (branches gone_config) (latestBranch gone_config) ''v0.12'' = Some ''release-0.12''
   \<and> fetches (trace_after (run gone_config (stub_env\<lparr>rangeOrder := [''v0.11'', ''v0.12'']\<rparr>) 3 empty_world))
       = [(''git'', [''clone'', ''-b'', ''gone'', ''https://example.org/docs.git'',
                     ''/tmp/hugo-multiversion-042/repo/v0.11''])]"
  by code_simp

text \<open>
  The theorem at a run of two versions with the stand-in for git: two clones, two
  copies, and the content of each branch in the directory of its version.
\<close>

theorem run_one_fetch_and_copy_per_version_witness:
  "map_option fst (run docs_config (stub_env\<lparr>rangeOrder := [''v0.12'', ''latest'']\<rparr>) 3 empty_world) = Some None
   \<and> distinct [''v0.12'', ''latest'']
   \<and> set [''v0.12'', ''latest''] = dom (versionMap (branches docs_config) (latestBranch docs_config))
   \<and> \<not> (latestBranch docs_config = [] \<and> branches docs_config = [])
   \<and> fetches (trace_after (run docs_config (stub_env\<lparr>rangeOrder := [''v0.12'', ''latest'']\<rparr>) 3 empty_world))
       = [(''git'', [''clone'', ''-b'', ''release-0.12'', ''https://example.org/docs.git'',
                     ''/tmp/hugo-multiversion-042/repo/v0.12'']),
          (''git'', [''clone'', ''-b'', ''master'', ''https://example.org/docs.git'',
                     ''/tmp/hugo-multiversion-042/repo/latest''])]
   \<and> copy_logs (trace_after (run docs_config (stub_env\<lparr>rangeOrder := [''v0.12'', ''latest'']\<rparr>) 3 empty_world))
       = [[(''version'', Str ''v0.12''), (''branch'', Str ''release-0.12'')],
          [(''version'', Str ''latest''), (''branch'', Str ''master'')]]
   \<and> left_at (run docs_config (stub_env\<lparr>rangeOrder := [''v0.12'', ''latest'']\<rparr>) 3 empty_world)
         [''home'', ''out'', ''v0.12'', ''index.md'']
       = Some (None, Some (File 0x1A4 ''release-0.12''))
   \<and> left_at (run docs_config (stub_env\<lparr>rangeOrder := [''v0.12'', ''latest'']\<rparr>) 3 empty_world)
         [''home'', ''out'', ''latest'', ''index.md'']
       = Some (None, Some (File 0x1A4 ''master''))"
proof -
  let ?e = "stub_env\<lparr>rangeOrder := [''v0.12'', ''latest'']\<rparr>"
  have h0: "map_option fst (run docs_config ?e 3 empty_world) = Some None"
    by code_simp
  then obtain w' where run: "run docs_config ?e 3 empty_world = Some (None, w')"
    by auto
  have vm: "versionMap (branches docs_config) (latestBranch docs_config)
      = [''v0.12'' \<mapsto> ''release-0.12'', ''latest'' \<mapsto> ''master'']"
    by (simp add: docs_config_def versionMap_def parseBranchesFlag_def parseBranchesFlag_body_def)
  have h1: "distinct (rangeOrder ?e)"
    by simp
  have h2: "set (rangeOrder ?e) = dom (versionMap (branches docs_config) (latestBranch docs_config))"
    unfolding vm by auto
  have h3: "\<not> (latestBranch docs_config = [] \<and> branches docs_config = [])"
    by code_simp
  have pairs: "range_pairs (versionMap (branches docs_config) (latestBranch docs_config)) (rangeOrder ?e)
      = [(''v0.12'', ''release-0.12''), (''latest'', ''master'')]"
    unfolding vm by (simp add: range_pairs_def)
  have cmds: "map (clone_command docs_config (filepath_Join [tempRoot ?e, ''hugo-multiversion-'' @ random ?e]))
        [(''v0.12'', ''release-0.12''), (''latest'', ''master'')]
      = [(''git'', [''clone'', ''-b'', ''release-0.12'', ''https://example.org/docs.git'',
                     ''/tmp/hugo-multiversion-042/repo/v0.12'']),
          (''git'', [''clone'', ''-b'', ''master'', ''https://example.org/docs.git'',
                     ''/tmp/hugo-multiversion-042/repo/latest''])]"
    by code_simp
  have t0: "fetches (trace empty_world) = []" "copy_logs (trace empty_world) = []"
    by code_simp+
  note inst = run_one_fetch_and_copy_per_version [OF h1 h2, where fuel = 3 and w = empty_world and w' = w']
  note fc = inst [THEN conjunct2, THEN conjunct2, THEN conjunct1, rule_format, OF run]
  from fc have "fetches (trace w') = [(''git'', [''clone'', ''-b'', ''release-0.12'', ''https://example.org/docs.git'',
                     ''/tmp/hugo-multiversion-042/repo/v0.12'']),
          (''git'', [''clone'', ''-b'', ''master'', ''https://example.org/docs.git'',
                     ''/tmp/hugo-multiversion-042/repo/latest''])]"
    "copy_logs (trace w') = [[(''version'', Str ''v0.12''), (''branch'', Str ''release-0.12'')],
          [(''version'', Str ''latest''), (''branch'', Str ''master'')]]"
    unfolding pairs cmds t0 by (simp_all add: version_logger_def)
  moreover have "left_at (run docs_config ?e 3 empty_world) [''home'', ''out'', ''v0.12'', ''index.md'']
       = Some (None, Some (File 0x1A4 ''release-0.12''))"
    "left_at (run docs_config ?e 3 empty_world) [''home'', ''out'', ''latest'', ''index.md'']
       = Some (None, Some (File 0x1A4 ''master''))"
    by code_simp+
  ultimately show ?thesis
    using h0 h2 h3 run by (simp add: trace_after_def)
qed

text \<open>
  C7, as amended. Let the workspace and the output directory be made, let the versions
  before \<open>vb\<close> be fetched and copied without error, and let the step for \<open>vb\<close> fail with
  \<open>err\<close>: either its fetch returns that error, or its fetch returns a directory and the
  copy from there returns that error; \<open>wz\<close> is the world that the failing call left. Then
  \<open>run\<close> returns that error and \<open>main\<close> exits with status 1. What \<open>run\<close> does after the
  failing call is to log the error and to call \<open>cleanup\<close>: the one command run for \<open>vb\<close> is
  the last command of the run, no directory is made and no file is created afterwards
  (nothing is retried, no later version is touched), nothing but the workspace is
  removed, and outside the workspace every path holds what the failing call left there
  (nothing is rolled back). When it is the fetch that failed, the run has made no
  directory and created no file for \<open>vb\<close>. A failing copy removes nothing: every file
  that was there after the fetch is still there.
\<close>

theorem run_stops_at_first_error:
  assumes todo: "\<not> (latestBranch cfg = [] \<and> branches cfg = [])"
    and flags: "setLogFlag e = None" "repoURL cfg \<noteq> []" "repoContentDir cfg \<noteq> []" "outputDir cfg \<noteq> []"
    and created: "ioutil_TempDir e w [] ''hugo-multiversion-'' = (Inr tmpdir, w0)"
    and outdir: "os_MkdirAll w0 (outputDir cfg) 0x1ED = (None, w1)"
    and order: "range_pairs (versionMap (branches cfg) (latestBranch cfg)) (rangeOrder e)
        = before @ vb # rest"
    and earlier: "run_range cfg e fuel tmpdir before w1 = Some (None, w2)"
    and fetch: "fetch_step cfg e tmpdir vb w2 = (fr, wx)"
    and failing: "(fr = Inl err \<and> wz = wx)
        \<or> (\<exists>loc. fr = Inr loc \<and> copy_step cfg fuel vb loc wx = Some (Some err, wz))"
  shows "\<exists>w'. run cfg e fuel w = Some (Some err, w')
       \<and> main cfg e fuel w = Some (1, emit (LogError [] err ''Failed to run'') w')
       \<and> w' = cleanup cfg e [] tmpdir
                (emit (LogError (version_logger vb) err
                   (if fr = Inl err then ''Failed to fetch repository''
                    else ''Failed to copy content from source repository to output directory'')) wz)
       \<and> fetches (trace w') = fetches (trace w2) @ [clone_command cfg tmpdir vb]
       \<and> visits (cwd w) (trace w') = visits (cwd w) (trace wz)
       \<and> removals (trace w') = removals (trace w) @ (if debug cfg then [] else [tmpdir])
       \<and> (\<forall>q. \<not> prefix (resolve (cwd w) tmpdir) q \<longrightarrow> lookup w' q = lookup wz q)
       \<and> (fr = Inl err \<longrightarrow> visits (cwd w) (trace w') = visits (cwd w) (trace w2))
       \<and> (wf_world wx \<longrightarrow>
            (\<forall>q n. lookup wx q = Some n \<longrightarrow>
               (\<exists>n'. lookup wz q = Some n' \<and> node_is_dir n' = node_is_dir n)))"
proof -
  let ?vbs = "range_pairs (versionMap (branches cfg) (latestBranch cfg)) (rangeOrder e)"
  let ?log = "version_logger vb"
  let ?msg = "if fr = Inl err then ''Failed to fetch repository''
      else ''Failed to copy content from source repository to output directory''"
  let ?w3 = "emit (LogError ?log err ?msg) wz"
  let ?w' = "cleanup cfg e [] tmpdir ?w3"
  note feff = fetchRepository_effect [OF fetch]
  have step: "run_version cfg e fuel tmpdir vb w2 = Some (Some err, ?w3)"
    using failing
  proof
    assume "fr = Inl err \<and> wz = wx"
    with fetch show ?thesis
      by (simp add: run_version_def Let_def version_logger_def)
  next
    assume "\<exists>loc. fr = Inr loc \<and> copy_step cfg fuel vb loc wx = Some (Some err, wz)"
    then obtain loc where "fr = Inr loc" "copy_step cfg fuel vb loc wx = Some (Some err, wz)"
      by blast
    with fetch show ?thesis
      by (simp add: run_version_def Let_def version_logger_def)
  qed
  then have "run_range cfg e fuel tmpdir (vb # rest) w2 = Some (Some err, ?w3)"
    by simp
  with earlier have "run_range cfg e fuel tmpdir ?vbs w1 = Some (Some err, ?w3)"
    unfolding order by (simp add: run_range_append)
  with outdir have "run_deferred cfg e fuel tmpdir w0 = Some (Some err, ?w3)"
    by (simp add: run_deferred_def)
  with run_created [OF todo created, of fuel]
  have run: "run cfg e fuel w = Some (Some err, ?w')"
    by simp
  with flags have main: "main cfg e fuel w = Some (1, emit (LogError [] err ''Failed to run'') ?w')"
    by (simp add: main_def validateFlags_ok)
  note t = ioutil_TempDir_ok [OF created]
  note ext1 = os_MkdirAll_extends [OF outdir]
  note eff2 = run_range_effect [OF earlier]
  have cwd2: "cwd w2 = cwd w"
    using t(2) extends_cwd [OF ext1] eff2 by simp
  have rem2: "removals (trace w2) = removals (trace w)"
    using t(2) extends_silent(3) [OF ext1] eff2 by (simp add: removals_append)
  have cwdx: "cwd wx = cwd w" and remx: "removals (trace wx) = removals (trace w)"
    and fetx: "fetches (trace wx) = fetches (trace w2) @ [clone_command cfg tmpdir vb]"
    and visx: "visits (cwd w) (trace wx) = visits (cwd w) (trace w2)"
    using feff(1,3,5) feff(6) [of "cwd w"] cwd2 rem2
    by (simp_all add: removals_append fetches_append clone_command_def)
  have z: "cwd wz = cwd w \<and> removals (trace wz) = removals (trace w)
      \<and> fetches (trace wz) = fetches (trace w2) @ [clone_command cfg tmpdir vb]
      \<and> (fr = Inl err \<longrightarrow> visits (cwd w) (trace wz) = visits (cwd w) (trace w2))"
    using failing
  proof
    assume "fr = Inl err \<and> wz = wx"
    with cwdx remx fetx visx show ?thesis
      by simp
  next
    assume "\<exists>loc. fr = Inr loc \<and> copy_step cfg fuel vb loc wx = Some (Some err, wz)"
    then obtain loc where loc: "fr = Inr loc" and copy: "copy_step cfg fuel vb loc wx = Some (Some err, wz)"
      by blast
    note ext = copyDir_extends [OF copy]
    from extends_cwd [OF ext] extends_silent(1,3) [OF ext] cwdx remx fetx loc show ?thesis
      by (simp add: removals_append fetches_append)
  qed
  have kind: "\<exists>n'. lookup wz q = Some n' \<and> node_is_dir n' = node_is_dir n"
    if wfx: "wf_world wx" and q: "lookup wx q = Some n" for q n
    using failing
  proof
    assume "fr = Inl err \<and> wz = wx"
    with q show ?thesis
      by simp
  next
    assume "\<exists>loc. fr = Inr loc \<and> copy_step cfg fuel vb loc wx = Some (Some err, wz)"
    then obtain loc where copy: "copy_step cfg fuel vb loc wx = Some (Some err, wz)"
      by blast
    have "wf_world (emit (LogInfo ?log ''Copying content to output directory'' [])
        (emit (LogInfo ?log ''Fetched repository'' [(''path'', Str loc)]) wx))"
      using wfx by simp
    from changes_kind [OF copyDir_changes [OF copy this], of q n] q show ?thesis
      by simp
  qed
  have "fetches (trace ?w') = fetches (trace w2) @ [clone_command cfg tmpdir vb]"
    using z by (simp add: cleanup_effect fetches_append)
  moreover have "visits (cwd w) (trace ?w') = visits (cwd w) (trace wz)"
    by (simp add: cleanup_effect)
  moreover have "removals (trace ?w') = removals (trace w) @ (if debug cfg then [] else [tmpdir])"
    using z by (simp add: cleanup_effect removals_append)
  moreover have "lookup ?w' q = lookup wz q" if "\<not> prefix (resolve (cwd w) tmpdir) q" for q
    using cleanup_effect(6) [of ?w3 tmpdir q cfg e "[]"] that z by simp
  moreover have "visits (cwd w) (trace ?w') = visits (cwd w) (trace w2)" if "fr = Inl err"
    using z that by (simp add: cleanup_effect)
  ultimately show ?thesis
    using run main kind by blast
qed


text \<open>
  C7 as it is stated fails for a copy error: when the content directory of the
  configuration is a regular file of the repository, \<open>copyDir\<close> has made the output
  subdirectory of the version before \<^verbatim>\<open>ioutil.ReadDir\<close> fails. The run exits with status 1
  and the subdirectory is there.
\<close>

theorem failed_copy_leaves_output_directory:
  "left_at (main readme_config stub_env 3 empty_world) [''home'', ''out'', ''v0.12'']
     = Some (1, Some (Dir 0x1A4))
   \<and> lookup empty_world [''home'', ''out'', ''v0.12''] = None
   \<and> fetches (trace_after (main readme_config stub_env 3 empty_world))
       = [(''git'', [''clone'', ''-b'', ''release-0.12'', ''https://example.org/docs.git'',
                     ''/tmp/hugo-multiversion-042/repo/v0.12''])]"
  by code_simp

text \<open>
  The theorem at a run whose second version is on a branch that does not exist (exit
  status 1, one clone for each of the two versions and no more), and at a run whose
  content directory is a regular file, where the copy fails.
\<close>

theorem run_stops_at_first_error_witness:
  "\<not> (latestBranch gone_config = [] \<and> branches gone_config = [])
   \<and> setLogFlag stub_env = None \<and> repoURL gone_config \<noteq> [] \<and> repoContentDir gone_config \<noteq> []
   \<and> outputDir gone_config \<noteq> []
   \<and> range_pairs (versionMap (branches gone_config) (latestBranch gone_config)) (rangeOrder stub_env)
       = [(''v0.12'', ''release-0.12'')] @ (''v0.11'', ''gone'') # []
   \<and> map_option fst (main gone_config stub_env 3 empty_world) = Some 1
   \<and> fetches (trace_after (run gone_config stub_env 3 empty_world))
       = [(''git'', [''clone'', ''-b'', ''release-0.12'', ''https://example.org/docs.git'',
                     ''/tmp/hugo-multiversion-042/repo/v0.12'']),
          (''git'', [''clone'', ''-b'', ''gone'', ''https://example.org/docs.git'',
                     ''/tmp/hugo-multiversion-042/repo/v0.11''])]
   \<and> range_pairs (versionMap (branches readme_config) (latestBranch readme_config)) (rangeOrder stub_env)
       = [] @ (''v0.12'', ''release-0.12'') # []
   \<and> map_option fst (run readme_config stub_env 3 empty_world)
       = Some (Some (PathError ''/tmp/hugo-multiversion-042/repo/v0.12/README.md''))
   \<and> map_option fst (main readme_config stub_env 3 empty_world) = Some 1"
proof -
  let ?tmp = "''/tmp/hugo-multiversion-042''"
  let ?w0 = "snd (ioutil_TempDir stub_env empty_world [] ''hugo-multiversion-'')"
  let ?w1 = "snd (os_MkdirAll ?w0 (outputDir gone_config) 0x1ED)"
  let ?v1 = "snd (os_MkdirAll ?w0 (outputDir readme_config) 0x1ED)"
  have h1: "\<not> (latestBranch gone_config = [] \<and> branches gone_config = [])"
    and h2: "setLogFlag stub_env = None" and h3: "repoURL gone_config \<noteq> []"
    and h4: "repoContentDir gone_config \<noteq> []" and h5: "outputDir gone_config \<noteq> []"
    by code_simp+
  have "fst (ioutil_TempDir stub_env empty_world [] ''hugo-multiversion-'') = Inr ?tmp"
    by code_simp
  then have h7: "ioutil_TempDir stub_env empty_world [] ''hugo-multiversion-'' = (Inr ?tmp, ?w0)"
    by (metis prod.collapse)
  have "fst (os_MkdirAll ?w0 (outputDir gone_config) 0x1ED) = None"
    by code_simp
  then have h8: "os_MkdirAll ?w0 (outputDir gone_config) 0x1ED = (None, ?w1)"
    by (metis prod.collapse)
  have "fst (os_MkdirAll ?w0 (outputDir readme_config) 0x1ED) = None"
    by code_simp
  then have g8: "os_MkdirAll ?w0 (outputDir readme_config) 0x1ED = (None, ?v1)"
    by (metis prod.collapse)
  have vm: "versionMap (branches gone_config) (latestBranch gone_config)
      = [''v0.12'' \<mapsto> ''release-0.12'', ''v0.11'' \<mapsto> ''gone'']"
    by (simp add: gone_config_def docs_config_def versionMap_def parseBranchesFlag_def
        parseBranchesFlag_body_def)
  have h9: "range_pairs (versionMap (branches gone_config) (latestBranch gone_config)) (rangeOrder stub_env)
      = [(''v0.12'', ''release-0.12'')] @ (''v0.11'', ''gone'') # []"
    unfolding vm by (simp add: range_pairs_def stub_env_def)
  have "map_option fst (run_range gone_config stub_env 3 ?tmp [(''v0.12'', ''release-0.12'')] ?w1) = Some None"
    by code_simp
  then obtain w2 where h10: "run_range gone_config stub_env 3 ?tmp [(''v0.12'', ''release-0.12'')] ?w1
      = Some (None, w2)"
    by auto
  obtain fr wx where h11: "fetch_step gone_config stub_env ?tmp (''v0.11'', ''gone'') w2 = (fr, wx)"
    by (cases "fetch_step gone_config stub_env ?tmp (''v0.11'', ''gone'') w2")
  with stub_git_gone [of gone_config "version_logger (''v0.11'', ''gone'')" ?tmp "repoURL gone_config" "''v0.11''"
      "emit (LogInfo (version_logger (''v0.11'', ''gone'')) ''Adding version to list to generate'' []) w2"]
  have fr: "fr = Inl ExitError"
    by simp
  then have h12: "(fr = Inl ExitError \<and> wx = wx)
      \<or> (\<exists>loc. fr = Inr loc \<and> copy_step gone_config 3 (''v0.11'', ''gone'') loc wx = Some (Some ExitError, wx))"
    by simp
  note inst = run_stops_at_first_error [OF h1 h2 h3 h4 h5 h7 h8 h9 h10 h11 h12]
  have c1: "clone_command gone_config ?tmp (''v0.12'', ''release-0.12'')
      = (''git'', [''clone'', ''-b'', ''release-0.12'', ''https://example.org/docs.git'',
                     ''/tmp/hugo-multiversion-042/repo/v0.12''])"
    and c2: "clone_command gone_config ?tmp (''v0.11'', ''gone'')
      = (''git'', [''clone'', ''-b'', ''gone'', ''https://example.org/docs.git'',
                     ''/tmp/hugo-multiversion-042/repo/v0.11''])"
    by code_simp+
  have "fetches (trace ?w1) = []"
    by code_simp
  with run_range_effect [OF h10] have "fetches (trace w2) = [clone_command gone_config ?tmp (''v0.12'', ''release-0.12'')]"
    by simp
  with inst have a: "map_option fst (main gone_config stub_env 3 empty_world) = Some 1"
    "fetches (trace_after (run gone_config stub_env 3 empty_world))
      = [clone_command gone_config ?tmp (''v0.12'', ''release-0.12''),
         clone_command gone_config ?tmp (''v0.11'', ''gone'')]"
    by (auto simp: trace_after_def)
  have g1: "\<not> (latestBranch readme_config = [] \<and> branches readme_config = [])"
    and g3: "repoURL readme_config \<noteq> []"
    and g4: "repoContentDir readme_config \<noteq> []" and g5: "outputDir readme_config \<noteq> []"
    by code_simp+
  have vm': "versionMap (branches readme_config) (latestBranch readme_config)
      = [''v0.12'' \<mapsto> ''release-0.12'']"
    by (simp add: readme_config_def docs_config_def versionMap_def parseBranchesFlag_def
        parseBranchesFlag_body_def)
  have g9: "range_pairs (versionMap (branches readme_config) (latestBranch readme_config)) (rangeOrder stub_env)
      = [] @ (''v0.12'', ''release-0.12'') # []"
    unfolding vm' by (simp add: range_pairs_def stub_env_def)
  have g10: "run_range readme_config stub_env 3 ?tmp [] ?v1 = Some (None, ?v1)"
    by simp
  let ?wx = "snd (fetch_step readme_config stub_env ?tmp (''v0.12'', ''release-0.12'') ?v1)"
  let ?loc = "''/tmp/hugo-multiversion-042/repo/v0.12''"
  have "fst (fetch_step readme_config stub_env ?tmp (''v0.12'', ''release-0.12'') ?v1) = Inr ?loc"
    by code_simp
  then have g11: "fetch_step readme_config stub_env ?tmp (''v0.12'', ''release-0.12'') ?v1 = (Inr ?loc, ?wx)"
    by (metis prod.collapse)
  have "map_option fst (copy_step readme_config 3 (''v0.12'', ''release-0.12'') ?loc ?wx)
      = Some (Some (PathError ''/tmp/hugo-multiversion-042/repo/v0.12/README.md''))"
    by code_simp
  then obtain wz where "copy_step readme_config 3 (''v0.12'', ''release-0.12'') ?loc ?wx
      = Some (Some (PathError ''/tmp/hugo-multiversion-042/repo/v0.12/README.md''), wz)"
    by auto
  then have g12: "(Inr ?loc = Inl (PathError ''/tmp/hugo-multiversion-042/repo/v0.12/README.md'') \<and> wz = ?wx)
      \<or> (\<exists>loc. Inr ?loc = Inr loc \<and> copy_step readme_config 3 (''v0.12'', ''release-0.12'') loc ?wx
            = Some (Some (PathError ''/tmp/hugo-multiversion-042/repo/v0.12/README.md''), wz))"
    by blast
  note inst2 = run_stops_at_first_error [OF g1 h2 g3 g4 g5 h7 g8 g9 g10 g11 g12]
  from inst2 have b: "map_option fst (run readme_config stub_env 3 empty_world)
       = Some (Some (PathError ''/tmp/hugo-multiversion-042/repo/v0.12/README.md''))"
    "map_option fst (main readme_config stub_env 3 empty_world) = Some 1"
    by auto
  from a b h1 h2 h3 h4 h5 h9 g9 show ?thesis
    unfolding c1 c2 by simp
qed

text \<open>
  C9, as amended. Take a run that has work to do and whose workspace was created, from a
  well-formed world, and let the part of \<open>run\<close> after the \<^verbatim>\<open>defer\<close> return (no error, or
  the error of a failed output directory, fetch or copy). Then \<open>run\<close> returns the same
  after \<open>cleanup\<close>, which touches nothing outside the workspace. With the debug flag
  nothing is removed. Without it there is one \<^verbatim>\<open>os.RemoveAll\<close>, of the workspace: when no
  file below the workspace is stuck, nothing exists at or below the workspace afterwards;
  when a file is stuck, that file and the directories above it (the workspace among
  them) are still there, the failure is logged, and \<open>run\<close> returns what it would have
  returned.
\<close>

theorem run_removes_workspace:
  assumes todo: "\<not> (latestBranch cfg = [] \<and> branches cfg = [])"
    and created: "ioutil_TempDir e w [] ''hugo-multiversion-'' = (Inr tmpdir, w0)"
    and wf: "wf_world w"
    and body: "run_deferred cfg e fuel tmpdir w0 = Some (r, w2)"
  shows "\<exists>w'. run cfg e fuel w = Some (r, w')
       \<and> removals (trace w') = removals (trace w) @ (if debug cfg then [] else [tmpdir])
       \<and> (\<forall>q. \<not> prefix (resolve (cwd w) tmpdir) q \<longrightarrow> lookup w' q = lookup w2 q)
       \<and> (debug cfg \<longrightarrow>
            files w' = files w2
            \<and> trace w' = trace w2 @ [LogInfo [(''directory'', Str tmpdir)]
                                       ''Skipping cleaning up temporary directory'' []])
       \<and> (\<not> debug cfg
            \<and> (\<forall>q. prefix (resolve (cwd w) tmpdir) q \<and> lookup w2 q \<noteq> None \<longrightarrow> \<not> stuck e w2 q) \<longrightarrow>
            (\<forall>q. prefix (resolve (cwd w) tmpdir) q \<longrightarrow> lookup w' q = None)
            \<and> trace w' = trace w2 @ [RemoveAll tmpdir,
                  LogInfo [(''directory'', Str tmpdir)] ''Cleaned up temporary directory'' []])
       \<and> (\<forall>h. \<not> debug cfg
                \<and> prefix (resolve (cwd w) tmpdir) h \<and> lookup w2 h \<noteq> None \<and> stuck e w2 h \<longrightarrow>
            (\<forall>q. prefix q h \<longrightarrow> lookup w' q = lookup w2 q)
            \<and> trace w' = trace w2 @ [RemoveAll tmpdir,
                  LogError [(''directory'', Str tmpdir)] (PathError tmpdir)
                    ''Failed to cleanup temporary directory''])"
proof -
  let ?w' = "cleanup cfg e [] tmpdir w2"
  from body run_created [OF todo created, of fuel] have run: "run cfg e fuel w = Some (r, ?w')"
    by simp
  note t = ioutil_TempDir_ok [OF created]
  from t(2) have w0: "cwd w0 = cwd w" "removals (trace w0) = removals (trace w)"
    by (simp_all add: removals_append)
  with run_deferred_effect [OF body] have w2: "cwd w2 = cwd w" "removals (trace w2) = removals (trace w)"
    by simp_all
  from tempdir_removable [OF created wf]
  have ok: "tmpdir \<noteq> []" "tmpdir \<noteq> ''.''" "\<not> suffix ''/.'' tmpdir"
    by simp_all
  have "removals (trace ?w') = removals (trace w) @ (if debug cfg then [] else [tmpdir])"
    using w2 by (simp add: cleanup_effect)
  moreover have "lookup ?w' q = lookup w2 q" if "\<not> prefix (resolve (cwd w) tmpdir) q" for q
    using cleanup_effect(6) [of w2 tmpdir q cfg e "[]"] that w2 by simp
  moreover have "files ?w' = files w2
      \<and> trace ?w' = trace w2 @ [LogInfo [(''directory'', Str tmpdir)]
                                   ''Skipping cleaning up temporary directory'' []]"
    if "debug cfg"
    using cleanup_skipped [OF that, of e "[]" tmpdir w2] by simp
  moreover have "(\<forall>q. prefix (resolve (cwd w) tmpdir) q \<longrightarrow> lookup ?w' q = None)
      \<and> trace ?w' = trace w2 @ [RemoveAll tmpdir,
            LogInfo [(''directory'', Str tmpdir)] ''Cleaned up temporary directory'' []]"
    if "\<not> debug cfg"
      "\<forall>q. prefix (resolve (cwd w) tmpdir) q \<and> lookup w2 q \<noteq> None \<longrightarrow> \<not> stuck e w2 q"
    using cleanup_removed [OF that(1) ok, of w2 e "[]"] that(2) w2 by simp
  moreover have "(\<forall>q. prefix q h \<longrightarrow> lookup ?w' q = lookup w2 q)
      \<and> trace ?w' = trace w2 @ [RemoveAll tmpdir,
            LogError [(''directory'', Str tmpdir)] (PathError tmpdir)
              ''Failed to cleanup temporary directory'']"
    if "\<not> debug cfg" "prefix (resolve (cwd w) tmpdir) h" "lookup w2 h \<noteq> None" "stuck e w2 h" for h
  proof -
    from that(2) w2 have "prefix (resolve (cwd w2) tmpdir) h"
      by simp
    from cleanup_failed [OF that(1) ok this that(3,4), where log = "[]"] show ?thesis
      by simp
  qed
  ultimately show ?thesis
    using run by blast
qed

text \<open>
  C9 as it is stated fails when the removal fails: with a file of the clone that cannot
  be removed, the run returns no error, has called \<^verbatim>\<open>os.RemoveAll\<close> once, and the workspace
  is still there.
\<close>

theorem failed_removal_leaves_workspace:
  "\<not> debug docs_config
   \<and> left_at (run docs_config busy_env 3 empty_world) [''tmp'', ''hugo-multiversion-042'']
       = Some (None, Some (Dir 0x1C0))
   \<and> left_at (run docs_config busy_env 3 empty_world)
         [''tmp'', ''hugo-multiversion-042'', ''repo'', ''v0.12'', ''README.md'']
       = Some (None, Some (File 0x1A4 ''docs of release-0.12''))
   \<and> removals (trace_after (run docs_config busy_env 3 empty_world)) = [''/tmp/hugo-multiversion-042'']"
  by code_simp


text \<open>
  The theorem at a run whose second fetch fails: without the debug flag the workspace,
  with the first clone in it, is gone; with the debug flag the clone is still there. And
  at a run with a file that cannot be removed: the workspace is still there.
\<close>

theorem run_removes_workspace_witness:
  "\<not> (latestBranch gone_config = [] \<and> branches gone_config = [])
   \<and> fst (ioutil_TempDir stub_env empty_world [] ''hugo-multiversion-'') = Inr ''/tmp/hugo-multiversion-042''
   \<and> wf_world empty_world
   \<and> \<not> debug gone_config
   \<and> left_at (run gone_config stub_env 3 empty_world) [''tmp'', ''hugo-multiversion-042'']
       = Some (Some ExitError, None)
   \<and> left_at (run gone_config stub_env 3 empty_world) [''tmp'', ''hugo-multiversion-042'', ''repo'', ''v0.12'']
       = Some (Some ExitError, None)
   \<and> debug (gone_config\<lparr>debug := True\<rparr>)
   \<and> left_at (run (gone_config\<lparr>debug := True\<rparr>) stub_env 3 empty_world)
         [''tmp'', ''hugo-multiversion-042'', ''repo'', ''v0.12'']
       = Some (Some ExitError, Some (Dir 0x1ED))
   \<and> \<not> debug docs_config
   \<and> stuck busy_env empty_world [''tmp'', ''hugo-multiversion-042'', ''repo'', ''v0.12'', ''README.md'']
   \<and> left_at (run docs_config busy_env 3 empty_world) [''tmp'', ''hugo-multiversion-042'']
       = Some (None, Some (Dir 0x1C0))"
proof -
  let ?T = "[''tmp'', ''hugo-multiversion-042'']"
  let ?tmp = "''/tmp/hugo-multiversion-042''"
  let ?dbg = "gone_config\<lparr>debug := True\<rparr>"
  let ?h = "[''tmp'', ''hugo-multiversion-042'', ''repo'', ''v0.12'', ''README.md'']"
  have h1: "\<not> (latestBranch gone_config = [] \<and> branches gone_config = [])"
    and d1: "\<not> (latestBranch ?dbg = [] \<and> branches ?dbg = [])"
    and b1: "\<not> (latestBranch docs_config = [] \<and> branches docs_config = [])"
    by code_simp+
  have h2: "fst (ioutil_TempDir stub_env empty_world [] ''hugo-multiversion-'') = Inr ?tmp"
    and b2: "fst (ioutil_TempDir busy_env empty_world [] ''hugo-multiversion-'') = Inr ?tmp"
    by code_simp+
  let ?w0 = "snd (ioutil_TempDir stub_env empty_world [] ''hugo-multiversion-'')"
  let ?v0 = "snd (ioutil_TempDir busy_env empty_world [] ''hugo-multiversion-'')"
  from h2 have created: "ioutil_TempDir stub_env empty_world [] ''hugo-multiversion-'' = (Inr ?tmp, ?w0)"
    by (metis prod.collapse)
  from b2 have created': "ioutil_TempDir busy_env empty_world [] ''hugo-multiversion-'' = (Inr ?tmp, ?v0)"
    by (metis prod.collapse)
  have h3: "wf_world empty_world" and h4: "\<not> debug gone_config" and d4: "debug ?dbg"
    and b4: "\<not> debug docs_config"
    by code_simp+
  have T: "resolve (cwd empty_world) ?tmp = ?T"
    by code_simp
  have free: "\<not> stuck stub_env w q" for w q
    by (simp add: stub_env_def)
  have held: "stuck busy_env w ?h" for w
    by (simp add: busy_env_def)

  have "map_option fst (run_deferred gone_config stub_env 3 ?tmp ?w0) = Some (Some ExitError)"
    by code_simp
  then obtain w2 where body: "run_deferred gone_config stub_env 3 ?tmp ?w0 = Some (Some ExitError, w2)"
    by auto
  note inst = run_removes_workspace [OF h1 created h3 body, unfolded T]
  from inst obtain w' where run: "run gone_config stub_env 3 empty_world = Some (Some ExitError, w')"
    and gone: "\<not> debug gone_config
        \<and> (\<forall>q. prefix ?T q \<and> lookup w2 q \<noteq> None \<longrightarrow> \<not> stuck stub_env w2 q) \<longrightarrow>
        (\<forall>q. prefix ?T q \<longrightarrow> lookup w' q = None)
        \<and> trace w' = trace w2 @ [RemoveAll ?tmp,
              LogInfo [(''directory'', Str ?tmp)] ''Cleaned up temporary directory'' []]"
    by (elim exE conjE)
  from gone h4 free have "\<forall>q. prefix ?T q \<longrightarrow> lookup w' q = None"
    by simp
  then have "lookup w' ?T = None" "lookup w' [''tmp'', ''hugo-multiversion-042'', ''repo'', ''v0.12''] = None"
    by simp_all
  with run have a: "left_at (run gone_config stub_env 3 empty_world) ?T = Some (Some ExitError, None)"
    "left_at (run gone_config stub_env 3 empty_world) [''tmp'', ''hugo-multiversion-042'', ''repo'', ''v0.12'']
       = Some (Some ExitError, None)"
    by (simp_all add: left_at_def)

  have dl: "left_at (run_deferred ?dbg stub_env 3 ?tmp ?w0) [''tmp'', ''hugo-multiversion-042'', ''repo'', ''v0.12'']
      = Some (Some ExitError, Some (Dir 0x1ED))"
    by code_simp
  then obtain v2 where body2: "run_deferred ?dbg stub_env 3 ?tmp ?w0 = Some (Some ExitError, v2)"
    and v2: "lookup v2 [''tmp'', ''hugo-multiversion-042'', ''repo'', ''v0.12''] = Some (Dir 0x1ED)"
    by (auto simp: left_at_def)
  note inst2 = run_removes_workspace [OF d1 created h3 body2, unfolded T]
  from inst2 obtain v' where run2: "run ?dbg stub_env 3 empty_world = Some (Some ExitError, v')"
    and kept: "debug ?dbg \<longrightarrow>
        files v' = files v2
        \<and> trace v' = trace v2 @ [LogInfo [(''directory'', Str ?tmp)]
              ''Skipping cleaning up temporary directory'' []]"
    by (elim exE conjE)
  from kept d4 have "files v' = files v2"
    by simp
  then have "lookup v' q = lookup v2 q" for q
    by (simp add: lookup_def)
  with run2 v2 have b: "left_at (run ?dbg stub_env 3 empty_world) [''tmp'', ''hugo-multiversion-042'', ''repo'', ''v0.12'']
      = Some (Some ExitError, Some (Dir 0x1ED))"
    by (simp add: left_at_def)

  have "left_at (run_deferred docs_config busy_env 3 ?tmp ?v0) ?T = Some (None, Some (Dir 0x1C0))"
    "left_at (run_deferred docs_config busy_env 3 ?tmp ?v0) ?h = Some (None, Some (File 0x1A4 ''docs of release-0.12''))"
    by code_simp+
  then obtain u2 where body3: "run_deferred docs_config busy_env 3 ?tmp ?v0 = Some (None, u2)"
    and u2: "lookup u2 ?T = Some (Dir 0x1C0)" "lookup u2 ?h \<noteq> None"
    by (auto simp: left_at_def)
  note inst3 = run_removes_workspace [OF b1 created' h3 body3, unfolded T]
  from inst3 obtain u' where run3: "run docs_config busy_env 3 empty_world = Some (None, u')"
    and stays: "\<forall>h. \<not> debug docs_config \<and> prefix ?T h \<and> lookup u2 h \<noteq> None \<and> stuck busy_env u2 h \<longrightarrow>
        (\<forall>q. prefix q h \<longrightarrow> lookup u' q = lookup u2 q)
        \<and> trace u' = trace u2 @ [RemoveAll ?tmp,
              LogError [(''directory'', Str ?tmp)] (PathError ?tmp)
                ''Failed to cleanup temporary directory'']"
    by (elim exE conjE)
  from stays [rule_format, of ?h] b4 u2(2) held have "\<forall>q. prefix q ?h \<longrightarrow> lookup u' q = lookup u2 q"
    by simp
  then have "lookup u' ?T = lookup u2 ?T"
    by simp
  with run3 u2(1) have c: "left_at (run docs_config busy_env 3 empty_world) ?T = Some (None, Some (Dir 0x1C0))"
    by (simp add: left_at_def)
  from a b c h1 h2 h3 h4 d4 b4 held show ?thesis
    by simp
qed

end
